theory Spec2Isabelle
  imports Complex_Main "HOL-Library.Log_Nat"
begin

section \<open>Values and exceptions\<close>

text \<open>
  The Python sources compute on \<open>float64\<close> values (numpy scalars and arrays, Python
  floats). A finite float is represented by the rational number it denotes
  (\<open>pyfloat\<close>); the result of an arithmetic operation is a finite float, an infinity
  or NaN (\<open>xfloat\<close>). An operation of the source on finite operands is the exact
  operation followed by rounding to float64 (\<open>fl64\<close> below): to the nearest float, ties
  to even, to an infinity when the rounded magnitude reaches \<open>2\<^sup>1\<^sup>0\<^sup>2\<^sup>4\<close>, and on the
  grid of the subnormal floats below \<open>2\<^sup>-\<^sup>1\<^sup>0\<^sup>2\<^sup>2\<close>. Comparisons, minima and maxima are
  exact. The sign of a zero is not represented: in the computations below a zero only
  matters as a divisor, where Python raises and numpy gives NaN or an infinity, and both
  infinities have the same consequences there.

  Exceptions are values of the type \<open>error\<close>. \<open>ValueError\<close>, \<open>KeyError\<close>,
  \<open>IndexError\<close>, \<open>ZeroDivisionError\<close> and \<open>OverflowError\<close> are Python's built-in ones,
  \<open>QhullError\<close> is the one of \<open>scipy.spatial\<close>, \<open>DataFileError\<close> the one of the
  repository's raw-data loader. \<open>InsufficientDataError\<close> and
  \<open>InsufficientPointsError\<close> are the names used by the specification; no source file
  defines or raises them, and no function below returns them.
\<close>

type_synonym pyfloat = rat

datatype xfloat = Num pyfloat | Infty bool | Nan

datatype error =
    ValueError
  | KeyError
  | IndexError
  | ZeroDivisionError
  | OverflowError
  | QhullError
  | DataFileError
  | InsufficientDataError
  | InsufficientPointsError

subsection \<open>Rounding to float64\<close>

text \<open>
  The binary exponent of a positive number: \<open>expo x\<close> is the \<open>e\<close> with
  \<open>2\<^sup>e \<le> x < 2\<^sup>e\<^sup>+\<^sup>1\<close>, computed from the bit length of the integer part of
  \<open>x\<close> or of \<open>1 / x\<close>.
\<close>

definition expo :: "rat \<Rightarrow> int" where
  "expo x = (if 1 \<le> x then bitlen \<lfloor>x\<rfloor> - 1 else - bitlen (\<lceil>1 / x\<rceil> - 1))"

text \<open>Rounding to the nearest integer, a tie to the even one.\<close>

definition round_even :: "rat \<Rightarrow> int" where
  "round_even m =
     (let f = \<lfloor>m\<rfloor>; r = m - of_int f
      in if r < 1 / 2 then f else if 1 / 2 < r then f + 1 else if even f then f else f + 1)"

text \<open>Rounding to 53 significant bits, whatever the exponent: a positive \<open>x\<close> is rounded
  to a multiple of \<open>2\<^sup>e\<^sup>-\<^sup>5\<^sup>2\<close>, where \<open>e\<close> is its exponent.\<close>

definition round53_pos :: "rat \<Rightarrow> rat" where
  "round53_pos x = of_int (round_even (x / 2 powi (expo x - 52))) * 2 powi (expo x - 52)"

definition round53 :: "rat \<Rightarrow> rat" where
  "round53 x = (if x = 0 then 0 else if 0 < x then round53_pos x else - round53_pos (- x))"

text \<open>Rounding to a multiple of \<open>2\<^sup>-\<^sup>1\<^sup>0\<^sup>7\<^sup>4\<close>, the spacing of the subnormal floats.\<close>

definition round_subnormal :: "rat \<Rightarrow> rat" where
  "round_subnormal x = of_int (round_even (x / 2 powi (- 1074))) * 2 powi (- 1074)"

text \<open>
  Rounding to float64. Below \<open>2\<^sup>-\<^sup>1\<^sup>0\<^sup>2\<^sup>2\<close> the floats are the multiples of \<open>2\<^sup>-\<^sup>1\<^sup>0\<^sup>7\<^sup>4\<close>
  (a tiny number rounds to zero); from there on they have 53 significant bits; a number
  that rounds to \<open>2\<^sup>1\<^sup>0\<^sup>2\<^sup>4\<close> or more in magnitude overflows to the infinity of its sign.
\<close>

definition fl64 :: "rat \<Rightarrow> xfloat" where
  "fl64 x =
     (if \<bar>x\<bar> < 2 powi (- 1022) then Num (round_subnormal x)
      else if 2 powi 1024 \<le> \<bar>round53 x\<bar> then Infty (0 < x)
      else Num (round53 x))"

subsection \<open>Arithmetic on floats\<close>

text \<open>
  The four operations of IEEE 754 as numpy's scalars perform them: none raises. The
  warnings that numpy issues for overflow, division by zero and invalid operations are
  silenced by the module (line 30).
\<close>

definition fneg :: "xfloat \<Rightarrow> xfloat" where
  "fneg x = (case x of Num a \<Rightarrow> Num (- a) | Infty s \<Rightarrow> Infty (\<not> s) | Nan \<Rightarrow> Nan)"

definition fadd :: "xfloat \<Rightarrow> xfloat \<Rightarrow> xfloat" where
  "fadd x y =
     (case (x, y) of
        (Num a, Num b) \<Rightarrow> fl64 (a + b)
      | (Num a, Infty t) \<Rightarrow> Infty t
      | (Infty s, Num b) \<Rightarrow> Infty s
      | (Infty s, Infty t) \<Rightarrow> (if s = t then Infty s else Nan)
      | _ \<Rightarrow> Nan)"

definition fsub :: "xfloat \<Rightarrow> xfloat \<Rightarrow> xfloat" where
  "fsub x y = fadd x (fneg y)"

definition fmul :: "xfloat \<Rightarrow> xfloat \<Rightarrow> xfloat" where
  "fmul x y =
     (case (x, y) of
        (Num a, Num b) \<Rightarrow> fl64 (a * b)
      | (Num a, Infty t) \<Rightarrow> (if a = 0 then Nan else Infty (t = (0 < a)))
      | (Infty s, Num b) \<Rightarrow> (if b = 0 then Nan else Infty (s = (0 < b)))
      | (Infty s, Infty t) \<Rightarrow> Infty (s = t)
      | _ \<Rightarrow> Nan)"

definition fdiv :: "xfloat \<Rightarrow> xfloat \<Rightarrow> xfloat" where
  "fdiv x y =
     (case (x, y) of
        (Num a, Num b) \<Rightarrow>
          (if b = 0 then (if a = 0 then Nan else Infty (0 < a)) else fl64 (a / b))
      | (Num a, Infty t) \<Rightarrow> Num 0
      | (Infty s, Num b) \<Rightarrow> Infty (s = (0 \<le> b))
      | _ \<Rightarrow> Nan)"

text \<open>
  Python's own \<open>a / b\<close> with a float divisor raises ZeroDivisionError for \<open>b = 0\<close>; an
  overflowing quotient is an infinity, not an exception.
\<close>

definition py_truediv :: "xfloat \<Rightarrow> xfloat \<Rightarrow> error + xfloat" where
  "py_truediv a b = (if b = Num 0 then Inl ZeroDivisionError else Inr (fdiv a b))"

text \<open>\<open>math.floor\<close> cannot convert an infinity (OverflowError) or NaN (ValueError) to an
  integer.\<close>

definition math_floor :: "xfloat \<Rightarrow> error + int" where
  "math_floor x =
     (case x of Num q \<Rightarrow> Inr \<lfloor>q\<rfloor> | Infty s \<Rightarrow> Inl OverflowError | Nan \<Rightarrow> Inl ValueError)"

section \<open>numpy primitives used by the coverage module\<close>

text \<open>\<open>np.max\<close> and \<open>np.min\<close>: a reduction over a zero-size array raises ValueError. The
  entries of the coordinate arrays are finite floats.\<close>

definition np_max :: "pyfloat list \<Rightarrow> error + pyfloat" where
  "np_max xs = (case xs of [] \<Rightarrow> Inl ValueError | x # r \<Rightarrow> Inr (fold max r x))"

definition np_min :: "pyfloat list \<Rightarrow> error + pyfloat" where
  "np_min xs = (case xs of [] \<Rightarrow> Inl ValueError | x # r \<Rightarrow> Inr (fold min r x))"

text \<open>
  \<open>np.arange(start, stop, step)\<close>. Its length is the ceiling of the float
  \<open>(stop - start) / step\<close>: numpy raises ValueError when that quotient is NaN and
  OverflowError when its ceiling is not in the range of the index type (an infinity, or
  beyond \<open>2\<^sup>6\<^sup>3\<close> in magnitude); a length that is not positive gives the empty array. (A
  length that is in range but more than the memory holds is not modelled.)
\<close>

definition arange_length :: "xfloat \<Rightarrow> error + int" where
  "arange_length v =
     (case v of
        Nan \<Rightarrow> Inl ValueError
      | Infty s \<Rightarrow> Inl OverflowError
      | Num q \<Rightarrow> (if - (2 ^ 63) \<le> \<lceil>q\<rceil> \<and> \<lceil>q\<rceil> < 2 ^ 63 then Inr \<lceil>q\<rceil> else Inl OverflowError))"

text \<open>
  The first entry is \<open>start\<close>, the second \<open>start + step\<close>, and entry \<open>i\<close> from the third
  on is \<open>start + i * delta\<close>, where \<open>delta\<close> is the second entry minus the first; each
  operation is rounded on its own (the product and the sum are not fused).
\<close>

definition arange_fill :: "xfloat \<Rightarrow> xfloat \<Rightarrow> nat \<Rightarrow> xfloat list" where
  "arange_fill start step len =
     (let next = fadd start step; delta = fsub next start
      in map (\<lambda>i. if i = 0 then start else if i = 1 then next
                   else fadd start (fmul (fl64 (of_nat i)) delta))
           [0 ..< len])"

definition np_arange :: "xfloat \<Rightarrow> xfloat \<Rightarrow> xfloat \<Rightarrow> error + xfloat list" where
  "np_arange start stop step =
     (case arange_length (fdiv (fsub stop start) step) of
        Inl e \<Rightarrow> Inl e
      | Inr len \<Rightarrow> Inr (arange_fill start step (nat len)))"

section \<open>Grid binner: \<open>get_map_bins\<close>\<close>

definition lxextent :: pyfloat where "lxextent = - 4400000"
definition uxextent :: pyfloat where "uxextent = 2500000"
definition uyextent :: pyfloat where "uyextent = 3500000"
definition lyextent :: pyfloat where "lyextent = - 2500000"

text \<open>
  Line 46 (and 47): the extent of the basin, an integer, divided by
  \<open>1000 * float(resolution)\<close> and floored.
\<close>

definition bin_count :: "pyfloat \<Rightarrow> xfloat \<Rightarrow> error + int" where
  "bin_count extent resolution =
     (case py_truediv (Num extent) (fmul (Num 1000) resolution) of
        Inl e \<Rightarrow> Inl e
      | Inr q \<Rightarrow> math_floor q)"

text \<open>One axis of \<open>get_map_bins\<close>: the step \<open>dxi\<close> (lines 53-54). The bin count is a
  Python integer, which the division converts to a float.\<close>

definition bin_step :: "pyfloat list \<Rightarrow> int \<Rightarrow> error + xfloat" where
  "bin_step xi xscale =
     (case np_max xi of Inl e \<Rightarrow> Inl e | Inr mx \<Rightarrow>
      case np_min xi of Inl e \<Rightarrow> Inl e | Inr mn \<Rightarrow>
        Inr (fdiv (fsub (Num mx) (Num mn)) (fl64 (of_int xscale))))"

text \<open>One axis of \<open>get_map_bins\<close>: the edges \<open>xbins_out\<close> (lines 56-57).\<close>

definition bin_edges :: "pyfloat list \<Rightarrow> xfloat \<Rightarrow> error + xfloat list" where
  "bin_edges xi dxi =
     (case np_min xi of Inl e \<Rightarrow> Inl e | Inr mn \<Rightarrow>
      case np_max xi of Inl e \<Rightarrow> Inl e | Inr mx \<Rightarrow>
        np_arange (Num mn) (fadd (Num mx) dxi) dxi)"

text \<open>
  \<open>get_map_bins(xy, options)\<close>. \<open>resolution\<close> is the float that line 34 makes of
  \<open>options['resolution']\<close>: a finite float, an infinity or NaN. The statements are
  evaluated in the order of the source: the two bin counts, the two steps, the two edge
  arrays.
\<close>

definition get_map_bins ::
  "pyfloat list \<times> pyfloat list \<Rightarrow> xfloat \<Rightarrow> error + (xfloat list \<times> xfloat list)" where
  "get_map_bins xy resolution =
     (case bin_count (uxextent - lxextent) resolution of Inl e \<Rightarrow> Inl e | Inr xscale \<Rightarrow>
      case bin_count (uyextent - lyextent) resolution of Inl e \<Rightarrow> Inl e | Inr yscale \<Rightarrow>
      let xi = fst xy; yj = snd xy in
      case bin_step xi xscale of Inl e \<Rightarrow> Inl e | Inr dxi \<Rightarrow>
      case bin_step yj yscale of Inl e \<Rightarrow> Inl e | Inr dyj \<Rightarrow>
      case bin_edges xi dxi of Inl e \<Rightarrow> Inl e | Inr xbins_out \<Rightarrow>
      case bin_edges yj dyj of Inl e \<Rightarrow> Inl e | Inr ybins_out \<Rightarrow>
        Inr (xbins_out, ybins_out))"

section \<open>Coverage rasterizer: \<open>coverage_histogram2d\<close>\<close>

text \<open>
  A two-dimensional float array carries its shape, so that an array with no rows keeps
  its number of columns. \<open>ndarray\<close> is what the running sum \<open>H\<close> of the frequency
  aggregation can be: the one-dimensional \<open>np.array([])\<close> it starts from, or a grid.
\<close>

record grid =
  nrows :: nat
  ncols :: nat
  rows :: "pyfloat list list"

datatype ndarray = Array1 "pyfloat list" | Array2 grid

text \<open>
  \<open>np.histogram2d(x, y, bins=(xedges, yedges))\<close> with two edge arrays, as numpy's
  \<open>histogramdd\<close> computes it. The bin number of a value is
  \<open>searchsorted(edges, v, side='right')\<close>, moved one bin to the left for a value equal to
  the last edge; bin number \<open>0\<close> and bin number \<open>len(edges)\<close> are the two outlier bins,
  which are cut off. On a sorted array, \<open>searchsorted\<close> with \<open>side='right'\<close> is the
  length of the longest prefix of entries \<open>\<le> v\<close>.
\<close>

definition searchsorted_right :: "pyfloat list \<Rightarrow> pyfloat \<Rightarrow> nat" where
  "searchsorted_right edges v = length (takeWhile (\<lambda>e. e \<le> v) edges)"

definition bin_number :: "pyfloat list \<Rightarrow> pyfloat \<Rightarrow> nat" where
  "bin_number edges v =
     (let n = searchsorted_right edges v in if v = last edges then n - 1 else n)"

definition cell_count ::
  "pyfloat list \<Rightarrow> pyfloat list \<Rightarrow> pyfloat list \<Rightarrow> pyfloat list \<Rightarrow> nat \<Rightarrow> nat \<Rightarrow> nat" where
  "cell_count x y xedges yedges i j =
     length (filter (\<lambda>(u, v). bin_number xedges u = i + 1 \<and> bin_number yedges v = j + 1)
               (zip x y))"

text \<open>
  The exceptions of \<open>np.histogram2d\<close>, in the order numpy checks: \<open>x\<close> and \<open>y\<close> of
  different lengths (ValueError), an edge array that is not monotonically increasing
  (ValueError), an empty edge array (IndexError, from reading its last entry).
\<close>

definition np_histogram2d ::
  "pyfloat list \<Rightarrow> pyfloat list \<Rightarrow> pyfloat list \<Rightarrow> pyfloat list \<Rightarrow> error + grid" where
  "np_histogram2d x y xedges yedges =
     (if length x \<noteq> length y then Inl ValueError
      else if \<not> sorted xedges \<or> \<not> sorted yedges then Inl ValueError
      else if xedges = [] \<or> yedges = [] then Inl IndexError
      else Inr \<lparr>nrows = length xedges - 1, ncols = length yedges - 1,
                rows = map (\<lambda>i. map (\<lambda>j. of_nat (cell_count x y xedges yedges i j))
                                   [0 ..< length yedges - 1])
                         [0 ..< length xedges - 1]\<rparr>)"

text \<open>\<open>H[H > t] = 1\<close>: every cell above the threshold \<open>t\<close> is set to one.\<close>

definition set_above :: "pyfloat \<Rightarrow> grid \<Rightarrow> grid" where
  "set_above t H = H\<lparr>rows := map (map (\<lambda>h. if h > t then 1 else h)) (rows H)\<rparr>"

definition coverage_histogram2d ::
  "pyfloat list \<times> pyfloat list \<Rightarrow> pyfloat list \<Rightarrow> pyfloat list \<Rightarrow> error + grid" where
  "coverage_histogram2d xy xbins_map ybins_map =
     (let xi = fst xy; yj = snd xy in
      case np_histogram2d xi yj xbins_map ybins_map of
        Inl e \<Rightarrow> Inl e
      | Inr H \<Rightarrow> Inr (set_above 1 H))"

text \<open>
  The cells of numpy's histogram, as its documentation describes them: bin \<open>i\<close> is the
  half-open interval from edge \<open>i\<close> to edge \<open>i + 1\<close>, and the last bin also contains
  its right edge.
\<close>

definition in_bin :: "pyfloat list \<Rightarrow> nat \<Rightarrow> pyfloat \<Rightarrow> bool" where
  "in_bin edges i v =
     (edges ! i \<le> v \<and>
      (v < edges ! (i + 1) \<or> (i + 2 = length edges \<and> v = edges ! (i + 1))))"

text \<open>The edge arrays that \<open>np.histogram2d\<close> accepts.\<close>

definition bins_ok :: "pyfloat list \<Rightarrow> bool" where
  "bins_ok edges = (edges \<noteq> [] \<and> sorted edges)"

definition zeros :: "nat \<Rightarrow> nat \<Rightarrow> grid" where
  "zeros r c = \<lparr>nrows = r, ncols = c, rows = replicate r (replicate c 0)\<rparr>"

section \<open>Coverage aggregator\<close>

text \<open>
  Modelled from the spec: the raw-data loader (\<open>compile_data\<close>, which is not part of
  the module) returns a table with the columns \<open>lon\<close>, \<open>lat\<close> and others, or raises
  \<open>DataFileError\<close> for missing or insufficient data. Both loops call it outside their
  \<open>try\<close> block. Inside the block they read the columns \<open>lon\<close> and \<open>lat\<close> of the table,
  which raises KeyError when the table has none (the table of an empty list of files),
  and project them (\<open>convert_to_grid\<close>, not part of the module either). So the data of
  one interval is one of three: the loader raises, the table has no coordinate columns,
  or the projected coordinates, of which there may be none (a table that has the columns
  and no rows).
\<close>

datatype interval =
    Loader_raises
  | No_coordinates
  | Points "pyfloat list \<times> pyfloat list"

definition list_get :: "'a list \<Rightarrow> nat \<Rightarrow> error + 'a" where
  "list_get xs i = (if i < length xs then Inr (xs ! i) else Inl IndexError)"

text \<open>\<open>len(np.flatnonzero(histogram))\<close>\<close>

definition count_nonzero :: "grid \<Rightarrow> nat" where
  "count_nonzero H = length (filter (\<lambda>h. h \<noteq> 0) (concat (rows H)))"

subsection \<open>Time series: \<open>coverage_timeseries\<close>\<close>


text \<open>
  The loop of lines 115-137. \<open>i\<close> is the loop index, \<open>df\<close> the table built so far; a
  row is \<open>(percentage, start_date, end_date)\<close>.
\<close>

fun timeseries_loop ::
  "nat \<Rightarrow> interval list \<Rightarrow> xfloat \<Rightarrow> ('d \<times> 'd) list \<Rightarrow> pyfloat list \<Rightarrow> pyfloat list
     \<Rightarrow> (xfloat \<times> 'd \<times> 'd) list \<Rightarrow> error + (xfloat \<times> 'd \<times> 'd) list" where
  "timeseries_loop i [] arctic_ocean_area date_pairs xbins_map ybins_map df = Inr df"
| "timeseries_loop i (iv # rest) arctic_ocean_area date_pairs xbins_map ybins_map df =
     (case iv of
        Loader_raises \<Rightarrow> Inl DataFileError
      | No_coordinates \<Rightarrow>
          timeseries_loop (i + 1) rest arctic_ocean_area date_pairs xbins_map ybins_map df
      | Points xy \<Rightarrow>
          (case coverage_histogram2d xy xbins_map ybins_map of Inl e \<Rightarrow> Inl e | Inr histogram \<Rightarrow>
           case py_truediv (Num (of_nat (count_nonzero histogram))) arctic_ocean_area of
             Inl e \<Rightarrow> Inl e | Inr q \<Rightarrow>
           case list_get date_pairs i of Inl e \<Rightarrow> Inl e | Inr dp \<Rightarrow>
             timeseries_loop (i + 1) rest arctic_ocean_area date_pairs xbins_map ybins_map
               (df @ [(fmul q (Num 100), fst dp, snd dp)])))"


subsection \<open>Frequency grid: \<open>interval_frequency_histogram2d\<close>\<close>

text \<open>
  \<open>H.resize(shape)\<close> with a two-dimensional shape: the entries of \<open>H\<close> in memory order,
  cut or filled up with zeros to the new size, in the new shape.
\<close>

fun flat :: "ndarray \<Rightarrow> pyfloat list" where
  "flat (Array1 xs) = xs"
| "flat (Array2 g) = concat (rows g)"

fun chunks :: "nat \<Rightarrow> nat \<Rightarrow> 'a list \<Rightarrow> 'a list list" where
  "chunks 0 c xs = []"
| "chunks (Suc r) c xs = take c xs # chunks r c (drop c xs)"

definition np_resize :: "ndarray \<Rightarrow> nat \<times> nat \<Rightarrow> ndarray" where
  "np_resize A shape =
     (case shape of (r, c) \<Rightarrow>
        Array2 \<lparr>nrows = r, ncols = c,
                rows = chunks r c (take (r * c) (flat A) @ replicate (r * c - length (flat A)) 0)\<rparr>)"

text \<open>
  \<open>H + histogram\<close> with numpy's broadcasting: the shapes are aligned at the last
  dimension (a one-dimensional array of length \<open>n\<close> counts as one row of \<open>n\<close> columns);
  two dimensions agree when they are equal or one of them is \<open>1\<close>, and the array with
  dimension \<open>1\<close> is repeated along it; otherwise numpy raises ValueError. The cells
  added here are small whole numbers, which float64 adds without rounding.
\<close>

definition bdim :: "nat \<Rightarrow> nat \<Rightarrow> nat option" where
  "bdim m n = (if m = n then Some m else if m = 1 then Some n else if n = 1 then Some m else None)"

fun as_grid :: "ndarray \<Rightarrow> grid" where
  "as_grid (Array1 xs) = \<lparr>nrows = 1, ncols = length xs, rows = [xs]\<rparr>"
| "as_grid (Array2 g) = g"

definition np_add :: "ndarray \<Rightarrow> grid \<Rightarrow> error + ndarray" where
  "np_add H B =
     (let A = as_grid H in
      case (bdim (nrows A) (nrows B), bdim (ncols A) (ncols B)) of
        (Some r, Some c) \<Rightarrow>
          Inr (Array2 \<lparr>nrows = r, ncols = c,
                 rows = map (\<lambda>i. map (\<lambda>j.
                              rows A ! (if nrows A = 1 then 0 else i) ! (if ncols A = 1 then 0 else j)
                            + rows B ! (if nrows B = 1 then 0 else i) ! (if ncols B = 1 then 0 else j))
                            [0 ..< c]) [0 ..< r]\<rparr>)
      | _ \<Rightarrow> Inl ValueError)"

text \<open>The loop of lines 178-198; \<open>i\<close> is the loop index, \<open>H\<close> the running sum.\<close>

fun frequency_loop ::
  "nat \<Rightarrow> interval list \<Rightarrow> pyfloat list \<Rightarrow> pyfloat list \<Rightarrow> ndarray \<Rightarrow> error + ndarray" where
  "frequency_loop i [] xbins_map ybins_map H = Inr H"
| "frequency_loop i (iv # rest) xbins_map ybins_map H =
     (case iv of
        Loader_raises \<Rightarrow> Inl DataFileError
      | No_coordinates \<Rightarrow> frequency_loop (i + 1) rest xbins_map ybins_map H
      | Points xy \<Rightarrow>
          (case coverage_histogram2d xy xbins_map ybins_map of Inl e \<Rightarrow> Inl e | Inr h \<Rightarrow>
           let histogram = set_above 0 h;
               H1 = (if i = 0 then np_resize H (nrows histogram, ncols histogram) else H)
           in case np_add H1 histogram of
                Inl e \<Rightarrow> Inl e
              | Inr H2 \<Rightarrow> frequency_loop (i + 1) rest xbins_map ybins_map H2))"

text \<open>\<open>interval_frequency_histogram2d\<close> up to the sum grid it plots.\<close>

definition interval_frequency_histogram2d ::
  "interval list \<Rightarrow> pyfloat list \<Rightarrow> pyfloat list \<Rightarrow> error + ndarray" where
  "interval_frequency_histogram2d interval_list xbins_map ybins_map =
     frequency_loop 0 interval_list xbins_map ybins_map (Array1 [])"

text \<open>The intervals that have coordinates, and how many of a list have: these are the
  intervals that are accumulated, not skipped.\<close>

fun loaded :: "interval \<Rightarrow> bool" where
  "loaded (Points xy) = True"
| "loaded _ = False"

definition accumulated :: "interval list \<Rightarrow> nat" where
  "accumulated ivs = length (filter loaded ivs)"

text \<open>The grid that \<open>coverage_histogram2d\<close> returns on accepted input.\<close>

definition occupancy :: "pyfloat list \<Rightarrow> pyfloat list \<Rightarrow> pyfloat list \<Rightarrow> pyfloat list \<Rightarrow> grid" where
  "occupancy xi yj xb yb =
     \<lparr>nrows = length xb - 1, ncols = length yb - 1,
      rows = map (\<lambda>i. map (\<lambda>j. if cell_count xi yj xb yb i j = 0 then 0 else 1)
                         [0 ..< length yb - 1])
               [0 ..< length xb - 1]\<rparr>"



text \<open>A grid is well shaped when its rows are as many and as long as its shape says.\<close>

definition wf_grid :: "grid \<Rightarrow> bool" where
  "wf_grid g = (length (rows g) = nrows g \<and> (\<forall>row \<in> set (rows g). length row = ncols g))"

text \<open>
  The invariant of the running sum: it is well shaped (as the grid it is broadcast as),
  and none of its cells exceeds \<open>k\<close>.
\<close>

definition sum_inv :: "nat \<Rightarrow> ndarray \<Rightarrow> bool" where
  "sum_inv k H = (wf_grid (as_grid H) \<and> (\<forall>h \<in> set (flat H). h \<le> of_nat k))"

section \<open>Triangulator: \<open>delaunay_triangulation\<close>\<close>

text \<open>
  Indexing a Python sequence or a numpy array with an integer: a negative index counts
  from the end, an index out of range raises IndexError.
\<close>

definition py_getitem :: "'a list \<Rightarrow> int \<Rightarrow> error + 'a" where
  "py_getitem xs i =
     (if 0 \<le> i \<and> i < int (length xs) then Inr (xs ! nat i)
      else if i < 0 \<and> - int (length xs) \<le> i then Inr (xs ! nat (int (length xs) + i))
      else Inl IndexError)"

text \<open>A data row of the output table, with the column names of the header.\<close>

record triangle_row =
  no :: nat
  sX1_aeqd :: pyfloat
  sX2_aeqd :: pyfloat
  sX3_aeqd :: pyfloat
  sY1_aeqd :: pyfloat
  sY2_aeqd :: pyfloat
  sY3_aeqd :: pyfloat
  vertice_idx1 :: int
  vertice_idx2 :: int
  vertice_idx3 :: int

datatype csv_row = Header "string list" | Data triangle_row

definition header :: "string list" where
  "header = [''no.'', ''sX1_aeqd'', ''sX2_aeqd'', ''sX3_aeqd'',
             ''sY1_aeqd'', ''sY2_aeqd'', ''sY3_aeqd'',
             ''vertice_idx1'', ''vertice_idx2'', ''vertice_idx3'']"

text \<open>
  The loop over \<open>tri.simplices\<close> (lines 64-83): \<open>n\<close> is the loop index, the list holds
  the simplices from index \<open>n\<close> on, each a triple of vertex indices.
\<close>

fun triangle_loop ::
  "nat \<Rightarrow> (int \<times> int \<times> int) list \<Rightarrow> pyfloat list \<Rightarrow> pyfloat list \<Rightarrow> csv_row list
     \<Rightarrow> error + csv_row list" where
  "triangle_loop n [] sX sY row_list = Inr row_list"
| "triangle_loop n ((idx1, idx2, idx3) # simplices) sX sY row_list =
     (case py_getitem sX idx1 of Inl e \<Rightarrow> Inl e | Inr x1 \<Rightarrow>
      case py_getitem sX idx2 of Inl e \<Rightarrow> Inl e | Inr x2 \<Rightarrow>
      case py_getitem sX idx3 of Inl e \<Rightarrow> Inl e | Inr x3 \<Rightarrow>
      case py_getitem sY idx1 of Inl e \<Rightarrow> Inl e | Inr y1 \<Rightarrow>
      case py_getitem sY idx2 of Inl e \<Rightarrow> Inl e | Inr y2 \<Rightarrow>
      case py_getitem sY idx3 of Inl e \<Rightarrow> Inl e | Inr y3 \<Rightarrow>
        triangle_loop (n + 1) simplices sX sY
          (row_list @ [Data \<lparr>no = n, sX1_aeqd = x1, sX2_aeqd = x2, sX3_aeqd = x3,
                               sY1_aeqd = y1, sY2_aeqd = y2, sY3_aeqd = y3,
                               vertice_idx1 = idx1, vertice_idx2 = idx2, vertice_idx3 = idx3\<rparr>]))"

text \<open>
  The body of \<open>delaunay_triangulation\<close> for one raw file, from the projected
  coordinates \<open>sX_aeqd\<close>, \<open>sY_aeqd\<close> (line 50) to the list of rows it writes (line 96).
  \<open>Delaunay\<close> stands for \<open>scipy.spatial.Delaunay\<close>, a parameter: it returns the
  simplices or raises. No statement of the body catches an exception.
\<close>

definition delaunay_triangulation ::
  "((pyfloat \<times> pyfloat) list \<Rightarrow> error + (int \<times> int \<times> int) list)
     \<Rightarrow> pyfloat list \<Rightarrow> pyfloat list \<Rightarrow> error + csv_row list" where
  "delaunay_triangulation Delaunay sX_aeqd sY_aeqd =
     (let sXY_aeqd = zip sX_aeqd sY_aeqd in
      case Delaunay sXY_aeqd of
        Inl e \<Rightarrow> Inl e
      | Inr simplices \<Rightarrow> triangle_loop 0 simplices sX_aeqd sY_aeqd [Header header])"

text \<open>
  The failures of \<open>scipy.spatial.Delaunay\<close> on a list of points in the plane, from its
  documentation: an empty list is not a two-dimensional array (ValueError); fewer than
  three points, or points that all lie on one line, give Qhull nothing to build an
  initial simplex from (QhullError). On any other input the outcome is Qhull's, and a
  parameter here: the simplices of a triangulation, or the QhullError that Qhull raises
  when it finds the points degenerate within its floating-point precision.
\<close>

text \<open>Twice the signed area of the triangle of three points.\<close>

fun area2 :: "pyfloat \<times> pyfloat \<Rightarrow> pyfloat \<times> pyfloat \<Rightarrow> pyfloat \<times> pyfloat \<Rightarrow> pyfloat" where
  "area2 (px, py) (qx, qy) (rx, ry) = (qx - px) * (ry - py) - (rx - px) * (qy - py)"

definition collinear :: "(pyfloat \<times> pyfloat) list \<Rightarrow> bool" where
  "collinear pts =
     (case pts of [] \<Rightarrow> True | p # ps \<Rightarrow> list_all (\<lambda>q. list_all (\<lambda>r. area2 p q r = 0) ps) ps)"

definition scipy_Delaunay ::
  "error + (int \<times> int \<times> int) list \<Rightarrow> (pyfloat \<times> pyfloat) list
     \<Rightarrow> error + (int \<times> int \<times> int) list" where
  "scipy_Delaunay outcome pts =
     (if pts = [] then Inl ValueError
      else if length pts < 3 \<or> collinear pts then Inl QhullError
      else outcome)"

section \<open>Properties of rounding\<close>

lemma two_powi_nat: "0 \<le> e \<Longrightarrow> (2::rat) powi e = of_int (2 ^ nat e)"
  by (simp add: power_int_def)

lemma expo_ge1:
  assumes "1 \<le> x"
  shows "2 powi expo x \<le> x \<and> x < 2 powi (expo x + 1)"
proof -
  let ?f = "\<lfloor>x\<rfloor>"
  have f: "0 < ?f" using assms by simp
  have e: "expo x = bitlen ?f - 1" using assms by (simp add: expo_def)
  have b: "2 ^ nat (bitlen ?f - 1) \<le> ?f" "?f < 2 ^ nat (bitlen ?f)"
    using bitlen_bounds [OF f] by simp_all
  have bl: "1 \<le> bitlen ?f" using f bitlen_eq_zero_iff [of ?f] bitlen_nonneg [of ?f] by linarith
  have "(2::rat) powi expo x = of_int (2 ^ nat (bitlen ?f - 1))"
    unfolding e using bl by (intro two_powi_nat) simp
  also have "\<dots> \<le> of_int ?f" using b(1) by (simp only: of_int_le_iff)
  also have "\<dots> \<le> x" by simp
  finally have 1: "2 powi expo x \<le> x" .
  have "?f + 1 \<le> 2 ^ nat (bitlen ?f)" using b(2) by simp
  then have "(of_int (?f + 1) :: rat) \<le> of_int (2 ^ nat (bitlen ?f))" by (simp only: of_int_le_iff)
  moreover have "x < of_int (?f + 1)" by linarith
  moreover have "(2::rat) powi (expo x + 1) = of_int (2 ^ nat (bitlen ?f))"
    unfolding e using bl two_powi_nat [of "bitlen ?f"] by simp
  ultimately have 2: "x < 2 powi (expo x + 1)" by simp
  from 1 2 show ?thesis ..
qed

lemma recip_le: "0 < x \<Longrightarrow> 0 < P \<Longrightarrow> 1 / x \<le> P \<Longrightarrow> 1 / P \<le> (x::rat)"
  by (simp add: field_simps)

lemma recip_less: "0 < x \<Longrightarrow> 0 < P \<Longrightarrow> P < 1 / x \<Longrightarrow> x < 1 / (P::rat)"
  by (simp add: field_simps)

lemma expo_lt1:
  assumes "0 < x" "x < 1"
  shows "2 powi expo x \<le> x \<and> x < 2 powi (expo x + 1)"
proof -
  let ?y = "1 / x"
  let ?c = "\<lceil>?y\<rceil> - 1"
  have y: "1 < ?y" using assms by simp
  then have c: "0 < ?c" by linarith
  have e: "expo x = - bitlen ?c" using assms by (simp add: expo_def)
  have b: "2 ^ nat (bitlen ?c - 1) \<le> ?c" "?c < 2 ^ nat (bitlen ?c)"
    using bitlen_bounds [OF c] by simp_all
  have bl: "1 \<le> bitlen ?c" using c bitlen_eq_zero_iff [of ?c] bitlen_nonneg [of ?c] by linarith
  have "\<lceil>?y\<rceil> \<le> 2 ^ nat (bitlen ?c)" using b(2) by simp
  then have "(of_int \<lceil>?y\<rceil> :: rat) \<le> of_int (2 ^ nat (bitlen ?c))" by (simp only: of_int_le_iff)
  then have "?y \<le> of_int (2 ^ nat (bitlen ?c))" by linarith
  then have yle: "?y \<le> 2 powi (bitlen ?c)" using bl two_powi_nat [of "bitlen ?c"] by simp
  have "2 ^ nat (bitlen ?c - 1) < \<lceil>?y\<rceil>" using b(1) by simp
  then have "(of_int (2 ^ nat (bitlen ?c - 1)) :: rat) < ?y"
    by (simp only: less_ceiling_iff)
  then have ygt: "2 powi (bitlen ?c - 1) < ?y" using bl two_powi_nat [of "bitlen ?c - 1"] by simp
  have p: "(0::rat) < 2 powi k" for k by simp
  have "1 / 2 powi (bitlen ?c) \<le> x"
    by (rule recip_le [OF assms(1) p yle])
  then have "2 powi expo x \<le> x"
    unfolding e by (simp add: power_int_minus field_simps)
  moreover have "x < 2 powi (expo x + 1)"
  proof -
    have "x < 1 / 2 powi (bitlen ?c - 1)"
      by (rule recip_less [OF assms(1) p ygt])
    moreover have "(2::rat) powi (expo x + 1) = 1 / 2 powi (bitlen ?c - 1)"
      unfolding e using power_int_minus [of "2::rat" "bitlen ?c - 1"] by (simp add: field_simps)
    ultimately show ?thesis by simp
  qed
  ultimately show ?thesis ..
qed

lemma expo_bounds:
  assumes "0 < x"
  shows "2 powi expo x \<le> x" "x < 2 powi (expo x + 1)"
  using expo_ge1 [of x] expo_lt1 [of x] assms by (cases "1 \<le> x"; simp)+


lemma round_even_cases: "round_even m = \<lfloor>m\<rfloor> \<or> round_even m = \<lfloor>m\<rfloor> + 1"
  by (simp add: round_even_def Let_def)

lemma round_even_of_int [simp]: "round_even (of_int k) = k"
  by (simp add: round_even_def)

lemma round_even_mono:
  assumes "a \<le> b"
  shows "round_even a \<le> round_even b"
proof (cases "\<lfloor>a\<rfloor> < \<lfloor>b\<rfloor>")
  case True
  have "round_even a \<le> \<lfloor>a\<rfloor> + 1" using round_even_cases [of a] by auto
  moreover have "\<lfloor>b\<rfloor> \<le> round_even b" using round_even_cases [of b] by auto
  ultimately show ?thesis using True by linarith
next
  case False
  then have eq: "\<lfloor>a\<rfloor> = \<lfloor>b\<rfloor>" using floor_mono [OF assms] by linarith
  have r: "a - of_int \<lfloor>b\<rfloor> \<le> b - of_int \<lfloor>b\<rfloor>" using assms by simp
  show ?thesis
    using r unfolding round_even_def Let_def eq by auto
qed

lemma two_powi_pos [simp]: "(0::rat) < 2 powi k"
  by simp

lemma two_powi_less_cancel:
  assumes "(2::rat) powi a < 2 powi b"
  shows "a < b"
proof (rule ccontr)
  assume "\<not> a < b"
  then have "b \<le> a" by simp
  then have "(2::rat) powi b \<le> 2 powi a" by (intro power_int_increasing) simp_all
  with assms show False by simp
qed

lemma expo_mono:
  assumes "0 < x" "x \<le> y"
  shows "expo x \<le> expo y"
proof -
  have "0 < y" using assms by simp
  then have "y < 2 powi (expo y + 1)" by (rule expo_bounds(2))
  moreover have "2 powi expo x \<le> x" using assms(1) by (rule expo_bounds(1))
  ultimately have "(2::rat) powi expo x < 2 powi (expo y + 1)" using assms(2) by linarith
  then have "expo x < expo y + 1" by (rule two_powi_less_cancel)
  then show ?thesis by simp
qed

lemma mantissa_bounds:
  assumes "0 < x"
  shows "of_int (2 ^ 52) \<le> x / 2 powi (expo x - 52)" "x / 2 powi (expo x - 52) \<le> of_int (2 ^ 53)"
proof -
  have s: "(2::rat) powi expo x = 2 powi (expo x - 52) * 2 ^ 52"
    using power_int_add [of "2::rat" "expo x - 52" 52] by simp
  have s1: "(2::rat) powi (expo x + 1) = 2 powi (expo x - 52) * 2 ^ 53"
    using power_int_add [of "2::rat" "expo x - 52" 53] by (simp add: add.commute)
  have "2 powi (expo x - 52) * 2 ^ 52 \<le> x" using expo_bounds(1) [OF assms] unfolding s .
  then show "of_int (2 ^ 52) \<le> x / 2 powi (expo x - 52)"
    by (simp add: field_simps)
  have "x \<le> 2 powi (expo x - 52) * 2 ^ 53" using expo_bounds(2) [OF assms] unfolding s1 by simp
  then show "x / 2 powi (expo x - 52) \<le> of_int (2 ^ 53)"
    by (simp add: field_simps)
qed

lemma round53_pos_bounds:
  assumes "0 < x"
  shows "2 powi expo x \<le> round53_pos x" "round53_pos x \<le> 2 powi (expo x + 1)"
proof -
  let ?u = "(2::rat) powi (expo x - 52)"
  let ?r = "round_even (x / ?u)"
  have "round_even (of_int (2 ^ 52)) \<le> ?r"
    by (rule round_even_mono [OF mantissa_bounds(1) [OF assms]])
  then have lo: "(2 ^ 52 :: int) \<le> ?r" by (simp only: round_even_of_int)
  have "?r \<le> round_even (of_int (2 ^ 53))"
    by (rule round_even_mono [OF mantissa_bounds(2) [OF assms]])
  then have hi: "?r \<le> (2 ^ 53 :: int)" by (simp only: round_even_of_int)
  have s: "(2::rat) powi expo x = of_int (2 ^ 52) * ?u"
    using power_int_add [of "2::rat" "expo x - 52" 52] by simp
  have s1: "(2::rat) powi (expo x + 1) = of_int (2 ^ 53) * ?u"
    using power_int_add [of "2::rat" "expo x - 52" 53] by (simp add: add.commute mult.commute)
  have "(of_int (2 ^ 52) :: rat) \<le> of_int ?r" using lo by (simp only: of_int_le_iff)
  then show "2 powi expo x \<le> round53_pos x"
    unfolding s round53_pos_def by (intro mult_right_mono) simp_all
  have "(of_int ?r :: rat) \<le> of_int (2 ^ 53)" using hi by (simp only: of_int_le_iff)
  then show "round53_pos x \<le> 2 powi (expo x + 1)"
    unfolding s1 round53_pos_def by (intro mult_right_mono) simp_all
qed

lemma round53_pos_positive: "0 < x \<Longrightarrow> 0 < round53_pos x"
  using round53_pos_bounds(1) [of x] two_powi_pos [of "expo x"] by linarith

lemma round53_pos_mono:
  assumes "0 < x" "x \<le> y"
  shows "round53_pos x \<le> round53_pos y"
proof (cases "expo x = expo y")
  case True
  let ?u = "(2::rat) powi (expo y - 52)"
  have "x / ?u \<le> y / ?u" using assms(2) by (simp add: divide_right_mono)
  then have "round_even (x / ?u) \<le> round_even (y / ?u)" by (rule round_even_mono)
  then have "(of_int (round_even (x / ?u)) :: rat) \<le> of_int (round_even (y / ?u))"
    by (simp only: of_int_le_iff)
  then show ?thesis
    unfolding round53_pos_def True by (intro mult_right_mono) simp_all
next
  case False
  have y: "0 < y" using assms by simp
  from False expo_mono [OF assms] have "expo x + 1 \<le> expo y" by simp
  then have "(2::rat) powi (expo x + 1) \<le> 2 powi expo y"
    by (intro power_int_increasing) simp_all
  then show ?thesis
    using round53_pos_bounds(2) [OF assms(1)] round53_pos_bounds(1) [OF y] by linarith
qed

text \<open>Rounding is monotone and keeps the sign.\<close>

lemma round53_mono:
  assumes "x \<le> y"
  shows "round53 x \<le> round53 y"
proof -
  consider "0 < x" | "x \<le> 0" "0 \<le> y" | "y < 0" by linarith
  then show ?thesis
  proof cases
    case 1
    then have "0 < y" using assms by simp
    then show ?thesis using 1 round53_pos_mono [OF 1 assms] by (simp add: round53_def)
  next
    case 2
    have "round53 x \<le> 0" using 2(1) round53_pos_positive [of "- x"] by (auto simp: round53_def intro: less_imp_le)
    moreover have "0 \<le> round53 y" using 2(2) round53_pos_positive [of y] by (auto simp: round53_def intro: less_imp_le)
    ultimately show ?thesis by simp
  next
    case 3
    then have x: "x < 0" using assms by simp
    have "round53_pos (- y) \<le> round53_pos (- x)"
      using 3 assms by (intro round53_pos_mono) simp_all
    then show ?thesis using 3 x by (simp add: round53_def)
  qed
qed

lemma round53_positive: "0 < x \<Longrightarrow> 0 < round53 x"
  using round53_pos_positive [of x] by (simp add: round53_def)

lemma round53_zero [simp]: "round53 0 = 0"
  by (simp add: round53_def)

lemma round53_ge: "round53 y = y \<Longrightarrow> y \<le> x \<Longrightarrow> y \<le> round53 x"
  using round53_mono [of y x] by simp

lemma round53_le: "round53 y = y \<Longrightarrow> x \<le> y \<Longrightarrow> round53 x \<le> y"
  using round53_mono [of x y] by simp

lemma round53_negative: "x < 0 \<Longrightarrow> round53 x < 0"
  using round53_pos_positive [of "- x"] by (simp add: round53_def)

lemma round53_eq_0_iff [simp]: "round53 x = 0 \<longleftrightarrow> x = 0"
  using round53_positive [of x] round53_negative [of x] by (cases "x = 0"; cases "0 < x"; force)

text \<open>The powers of two are fixed points of the rounding, and the rounding commutes with
  the absolute value.\<close>

lemma expo_two_powi: "expo (2 powi k) = k"
proof -
  let ?e = "expo (2 powi k)"
  have lo: "(2::rat) powi ?e \<le> 2 powi k" and hi: "(2::rat) powi k < 2 powi (?e + 1)"
    using expo_bounds [of "2 powi k"] by simp_all
  have "k < ?e + 1" using hi by (rule two_powi_less_cancel)
  moreover have "?e < k + 1"
  proof (rule two_powi_less_cancel)
    have "(2::rat) powi k < 2 powi (k + 1)" by (intro power_int_strict_increasing) simp_all
    with lo show "(2::rat) powi ?e < 2 powi (k + 1)" by linarith
  qed
  ultimately show ?thesis by simp
qed

lemma round53_two_powi: "round53 (2 powi k) = 2 powi k"
proof -
  have s: "(2::rat) powi k = of_int (2 ^ 52) * 2 powi (k - 52)"
    using power_int_add [of "2::rat" "k - 52" 52] by simp
  have "(2::rat) powi k / 2 powi (k - 52) = of_int (2 ^ 52)"
    by (subst s) simp
  then have "round53_pos (2 powi k) = of_int (2 ^ 52) * 2 powi (k - 52)"
    unfolding round53_pos_def expo_two_powi by (simp only: round_even_of_int)
  then show ?thesis using s by (simp add: round53_def)
qed

lemma round53_abs: "\<bar>round53 x\<bar> = round53 \<bar>x\<bar>"
proof -
  consider "x = 0" | "0 < x" | "x < 0" by linarith
  then show ?thesis
  proof cases
    case 1
    then show ?thesis by simp
  next
    case 2
    then show ?thesis using round53_positive [of x] by simp
  next
    case 3
    then have "round53 x = - round53_pos (- x)" "round53 (- x) = round53_pos (- x)"
      by (simp_all add: round53_def)
    then show ?thesis using 3 round53_pos_positive [of "- x"] by simp
  qed
qed

lemma round53_lower: "2 powi k \<le> \<bar>x\<bar> \<Longrightarrow> 2 powi k \<le> \<bar>round53 x\<bar>"
  unfolding round53_abs by (rule round53_ge [OF round53_two_powi])

lemma round53_upper: "\<bar>x\<bar> \<le> 2 powi k \<Longrightarrow> \<bar>round53 x\<bar> \<le> 2 powi k"
  unfolding round53_abs by (rule round53_le [OF round53_two_powi])

text \<open>Rounding to float64: zero, the normal range, overflow.\<close>

lemma two_powi_le: "a \<le> b \<Longrightarrow> (2::rat) powi a \<le> 2 powi b"
  by (intro power_int_increasing) simp_all

lemma two_powi_less: "a < b \<Longrightarrow> (2::rat) powi a < 2 powi b"
  by (intro power_int_strict_increasing) simp_all

lemma fl64_zero [simp]: "fl64 0 = Num 0"
  by (simp add: fl64_def round_subnormal_def round_even_def)

lemma fl64_not_Nan [simp]: "fl64 x \<noteq> Nan"
  by (simp add: fl64_def)

lemma fl64_normal:
  assumes "2 powi (- 1022) \<le> \<bar>x\<bar>" "\<bar>x\<bar> \<le> 2 powi k" "k \<le> 1023"
  shows "fl64 x = Num (round53 x)"
proof -
  have "\<bar>round53 x\<bar> \<le> 2 powi k" using assms(2) by (rule round53_upper)
  moreover have "(2::rat) powi k < 2 powi 1024" using assms(3) by (intro two_powi_less) simp
  ultimately have "\<not> 2 powi 1024 \<le> \<bar>round53 x\<bar>" by linarith
  then show ?thesis using assms(1) by (simp add: fl64_def)
qed

lemma fl64_overflow:
  assumes "2 powi 1024 \<le> \<bar>x\<bar>"
  shows "fl64 x = Infty (0 < x)"
proof -
  have "(2::rat) powi (- 1022) \<le> 2 powi 1024" by (intro two_powi_le) simp
  then have "\<not> \<bar>x\<bar> < 2 powi (- 1022)" using assms by linarith
  moreover have "2 powi 1024 \<le> \<bar>round53 x\<bar>" using assms by (rule round53_lower)
  ultimately show ?thesis by (simp add: fl64_def)
qed

lemma fl64_finite:
  assumes "\<bar>x\<bar> \<le> 2 powi k" "k \<le> 1023"
  shows "\<exists>v. fl64 x = Num v"
proof (cases "\<bar>x\<bar> < 2 powi (- 1022)")
  case True
  then show ?thesis by (simp add: fl64_def)
next
  case False
  then have "2 powi (- 1022) \<le> \<bar>x\<bar>" by simp
  from fl64_normal [OF this assms] show ?thesis by blast
qed

text \<open>A number of magnitude at least \<open>2\<^sup>k\<close>, \<open>k\<close> in the normal range, rounds to an
  infinity or to a float of magnitude at least \<open>2\<^sup>k\<close>.\<close>

lemma fl64_lower:
  assumes "2 powi k \<le> \<bar>x\<bar>" "- 1022 \<le> k"
  shows "(\<exists>s. fl64 x = Infty s) \<or> (\<exists>v. fl64 x = Num v \<and> 2 powi k \<le> \<bar>v\<bar>)"
proof -
  have "(2::rat) powi (- 1022) \<le> 2 powi k" using assms(2) by (rule two_powi_le)
  then have n: "\<not> \<bar>x\<bar> < 2 powi (- 1022)" using assms(1) by linarith
  have "2 powi k \<le> \<bar>round53 x\<bar>" using assms(1) by (rule round53_lower)
  then show ?thesis using n by (simp add: fl64_def)
qed

text \<open>Evaluation of the operations on operands of moderate size: the result is the
  exact result rounded to 53 bits.\<close>

lemma fl64_eval:
  assumes "round53 x = v" "1 / 2 ^ 20 \<le> \<bar>x\<bar>" "\<bar>x\<bar> \<le> 2 ^ 62"
  shows "fl64 x = Num v"
proof -
  have "(2::rat) powi (- 1022) \<le> 2 powi (- 20)" by (rule two_powi_le) simp
  also have "(2::rat) powi (- 20) = 1 / 2 ^ 20" by (simp add: power_int_minus field_simps)
  finally have lo: "2 powi (- 1022) \<le> \<bar>x\<bar>" using assms(2) by linarith
  have hi: "\<bar>x\<bar> \<le> 2 powi 62" using assms(3) by simp
  show ?thesis using fl64_normal [OF lo hi] assms(1) by simp
qed

lemma fadd_eval:
  assumes "round53 (a + b) = v" "1 / 2 ^ 20 \<le> \<bar>a + b\<bar>" "\<bar>a + b\<bar> \<le> 2 ^ 62"
  shows "fadd (Num a) (Num b) = Num v"
  using fl64_eval [OF assms] by (simp add: fadd_def)

lemma fsub_eval:
  assumes "round53 (a - b) = v" "1 / 2 ^ 20 \<le> \<bar>a - b\<bar>" "\<bar>a - b\<bar> \<le> 2 ^ 62"
  shows "fsub (Num a) (Num b) = Num v"
  using fl64_eval [OF assms] by (simp add: fsub_def fadd_def fneg_def)

lemma fmul_eval:
  assumes "round53 (a * b) = v" "1 / 2 ^ 20 \<le> \<bar>a * b\<bar>" "\<bar>a * b\<bar> \<le> 2 ^ 62"
  shows "fmul (Num a) (Num b) = Num v"
  using fl64_eval [OF assms] by (simp add: fmul_def)

lemma fdiv_eval:
  assumes "round53 (a / b) = v" "1 / 2 ^ 20 \<le> \<bar>a / b\<bar>" "\<bar>a / b\<bar> \<le> 2 ^ 62" "b \<noteq> 0"
  shows "fdiv (Num a) (Num b) = Num v"
  using fl64_eval [OF assms(1-3)] assms(4) by (simp add: fdiv_def)

section \<open>Properties of the grid binner\<close>

lemma length_arange_fill [simp]: "length (arange_fill start step len) = len"
  by (simp add: arange_fill_def Let_def)

lemma last_arange_fill:
  assumes "2 \<le> n"
  shows "last (arange_fill start step (Suc n))
           = fadd start (fmul (fl64 (of_nat n)) (fsub (fadd start step) start))"
  using assms by (simp add: arange_fill_def Let_def)

subsection \<open>The first edge\<close>

text \<open>Whenever \<open>get_map_bins\<close> returns edges, the first edge of an axis is the minimum of
  the data on that axis.\<close>

lemma np_min_Min: "xi \<noteq> [] \<Longrightarrow> np_min xi = Inr (Min (set xi))"
  by (cases xi) (simp_all add: np_min_def Min.set_eq_fold [symmetric])

lemma hd_arange_fill: "0 < len \<Longrightarrow> hd (arange_fill start step len) = start"
  by (simp add: arange_fill_def Let_def hd_map upt_conv_Cons)

lemma bin_edges_first:
  assumes "bin_edges xi dxi = Inr xb" "xb \<noteq> []"
  shows "hd xb = Num (Min (set xi))"
proof -
  from assms(1) have ne: "xi \<noteq> []" by (auto simp: bin_edges_def np_min_def)
  from assms(1) ne obtain len where
    xb: "xb = arange_fill (Num (Min (set xi))) dxi len"
    by (auto simp: bin_edges_def np_min_Min np_arange_def split: sum.splits)
  with assms(2) have "0 < len" by (cases len) (simp_all add: arange_fill_def)
  then show ?thesis unfolding xb by (rule hd_arange_fill)
qed

lemma get_map_bins_first_edge:
  assumes "get_map_bins (xi, yj) r = Inr (xb, yb)"
  shows "(xb \<noteq> [] \<longrightarrow> hd xb = Num (Min (set xi)))
       \<and> (yb \<noteq> [] \<longrightarrow> hd yb = Num (Min (set yj)))"
proof -
  from assms obtain dxi dyj where "bin_edges xi dxi = Inr xb" "bin_edges yj dyj = Inr yb"
    by (auto simp: get_map_bins_def Let_def split: sum.splits)
  then show ?thesis using bin_edges_first by blast
qed

subsection \<open>The bin counts\<close>

text \<open>Line 46 for a resolution that is zero: Python's division raises.\<close>

lemma bin_count_zero: "bin_count ext (Num 0) = Inl ZeroDivisionError"
  by (simp add: bin_count_def fmul_def py_truediv_def)

text \<open>Line 46 for a resolution that is infinite: the quotient is zero. For one that is NaN:
  the quotient is NaN, which \<open>math.floor\<close> cannot convert.\<close>

lemma bin_count_infinite: "bin_count ext (Infty s) = Inr 0"
  by (simp add: bin_count_def fmul_def py_truediv_def fdiv_def math_floor_def)

lemma bin_count_nan: "bin_count ext Nan = Inl ValueError"
  by (simp add: bin_count_def fmul_def py_truediv_def fdiv_def math_floor_def)

text \<open>Line 46 for a resolution of magnitude at least \<open>2\<^sup>-\<^sup>1\<^sup>0\<^sup>0\<^sup>9\<close>: the quotient is finite,
  and \<open>math.floor\<close> returns.\<close>

lemma bin_count_finite:
  assumes "2 powi (- 1009) \<le> \<bar>r\<bar>" "0 < ext" "ext \<le> 2 ^ 23"
  shows "\<exists>n. bin_count ext (Num r) = Inr n"
proof -
  have p: "(2::rat) powi (- 1000) = 2 ^ 9 * 2 powi (- 1009)"
    using power_int_add [of "2::rat" 9 "- 1009"] by simp
  have "2 ^ 9 * 2 powi (- 1009) \<le> 2 ^ 9 * \<bar>r\<bar>"
    using assms(1) by (intro mult_left_mono) simp_all
  also have "\<dots> \<le> 1000 * \<bar>r\<bar>" by (intro mult_right_mono) simp_all
  finally have y: "2 powi (- 1000) \<le> \<bar>1000 * r\<bar>" unfolding p by (simp add: abs_mult)
  have m: "fmul (Num 1000) (Num r) = fl64 (1000 * r)" by (simp add: fmul_def)
  from fl64_lower [OF y] consider s where "fl64 (1000 * r) = Infty s"
    | w where "fl64 (1000 * r) = Num w" "2 powi (- 1000) \<le> \<bar>w\<bar>"
    by auto
  then show ?thesis
  proof cases
    case 1
    show ?thesis
      unfolding bin_count_def m 1 by (simp add: py_truediv_def fdiv_def math_floor_def)
  next
    case 2
    have wpos: "0 < \<bar>w\<bar>" using 2(2) two_powi_pos [of "- 1000"] by linarith
    then have w0: "w \<noteq> 0" by simp
    have q: "(2::rat) ^ 23 = 2 powi 1023 * 2 powi (- 1000)"
      using power_int_add [of "2::rat" 1023 "- 1000"] by simp
    have "ext \<le> 2 powi 1023 * 2 powi (- 1000)" using assms(3) unfolding q .
    also have "\<dots> \<le> 2 powi 1023 * \<bar>w\<bar>" using 2(2) by (intro mult_left_mono) simp_all
    finally have "ext / \<bar>w\<bar> \<le> 2 powi 1023" using wpos by (simp add: field_simps)
    then have "\<bar>ext / w\<bar> \<le> 2 powi 1023" using assms(2) by (simp add: abs_divide)
    from fl64_finite [OF this] obtain v where v: "fl64 (ext / w) = Num v" by auto
    show ?thesis
      unfolding bin_count_def m 2(1) using w0 v
      by (simp add: py_truediv_def fdiv_def math_floor_def)
  qed
qed

text \<open>Line 46 for a resolution of magnitude between \<open>2\<^sup>-\<^sup>1\<^sup>0\<^sup>2\<^sup>0\<close> and \<open>2\<^sup>-\<^sup>1\<^sup>0\<^sup>1\<^sup>2\<close>: the
  quotient overflows to an infinity, which \<open>math.floor\<close> cannot convert.\<close>

lemma bin_count_overflow:
  assumes "2 powi (- 1020) \<le> \<bar>r\<bar>" "\<bar>r\<bar> \<le> 2 powi (- 1012)" "2 ^ 22 \<le> ext"
  shows "bin_count ext (Num r) = Inl OverflowError"
proof -
  let ?w = "round53 (1000 * r)"
  have "2 powi (- 1020) \<le> 1000 * \<bar>r\<bar>" using assms(1) by simp
  then have ylo: "2 powi (- 1020) \<le> \<bar>1000 * r\<bar>" by (simp add: abs_mult)
  have p: "(2::rat) powi (- 1002) = 2 ^ 10 * 2 powi (- 1012)"
    using power_int_add [of "2::rat" 10 "- 1012"] by simp
  have "1000 * \<bar>r\<bar> \<le> 2 ^ 10 * \<bar>r\<bar>" by (intro mult_right_mono) simp_all
  also have "\<dots> \<le> 2 ^ 10 * 2 powi (- 1012)" using assms(2) by (intro mult_left_mono) simp_all
  finally have yhi: "\<bar>1000 * r\<bar> \<le> 2 powi (- 1002)" unfolding p by (simp add: abs_mult)
  have y: "2 powi (- 1022) \<le> \<bar>1000 * r\<bar>"
    using ylo two_powi_le [of "- 1022" "- 1020"] by simp
  have w: "fl64 (1000 * r) = Num ?w" by (rule fl64_normal [OF y yhi]) simp
  have wlo: "2 powi (- 1020) \<le> \<bar>?w\<bar>" using ylo by (rule round53_lower)
  have whi: "\<bar>?w\<bar> \<le> 2 powi (- 1002)" using yhi by (rule round53_upper)
  have wpos: "0 < \<bar>?w\<bar>" using wlo two_powi_pos [of "- 1020"] by linarith
  then have w0: "?w \<noteq> 0" by fastforce
  have q: "(2::rat) ^ 22 = 2 powi 1024 * 2 powi (- 1002)"
    using power_int_add [of "2::rat" 1024 "- 1002"] by simp
  have "2 powi 1024 * \<bar>?w\<bar> \<le> 2 powi 1024 * 2 powi (- 1002)"
    using whi by (intro mult_left_mono) simp_all
  also have "\<dots> \<le> ext" using assms(3) unfolding q .
  finally have "2 powi 1024 \<le> ext / \<bar>?w\<bar>" using wpos by (simp add: field_simps)
  moreover have "0 < ext" using assms(3) by simp
  ultimately have "2 powi 1024 \<le> \<bar>ext / ?w\<bar>" by (simp add: abs_divide)
  then have o: "fl64 (ext / ?w) = Infty (0 < ext / ?w)" by (rule fl64_overflow)
  have m: "fmul (Num 1000) (Num r) = Num ?w" using w by (simp add: fmul_def)
  show ?thesis
    unfolding bin_count_def m using w0 o
    by (simp add: py_truediv_def fdiv_def math_floor_def)
qed

subsection \<open>The full basin at a resolution of 7 km\<close>

text \<open>
  The computation of \<open>get_map_bins\<close> on a point set whose extent is the extent of the
  basin, at a resolution of 7 km, statement by statement; every float is written as the
  rational number it is. Lines 46-47: the bin counts are \<open>floor (6900000 / 7000) = 985\<close>
  and \<open>floor (6000000 / 7000) = 857\<close>.
\<close>

lemma basin_quotients:
  "fmul (Num 1000) (Num 7) = Num 7000"
  "fdiv (Num 6900000) (Num 7000) = Num (8670434550462171 / 8796093022208)"
  "fdiv (Num 6000000) (Num 7000) = Num (3769754152374857 / 4398046511104)"
  by (rule fmul_eval fdiv_eval; code_simp)+

lemma basin_floors:
  "\<lfloor>8670434550462171 / 8796093022208 :: rat\<rfloor> = 985"
  "\<lfloor>3769754152374857 / 4398046511104 :: rat\<rfloor> = 857"
  by code_simp+

lemma basin_counts:
  "bin_count (uxextent - lxextent) (Num 7) = Inr 985"
  "bin_count (uyextent - lyextent) (Num 7) = Inr 857"
  by (simp_all add: bin_count_def uxextent_def lxextent_def uyextent_def lyextent_def
      basin_quotients py_truediv_def math_floor_def basin_floors)

text \<open>Lines 53-54: the steps are the floats nearest to \<open>6900000 / 985\<close> and
  \<open>6000000 / 857\<close>.\<close>

lemma basin_extents:
  "fsub (Num 2500000) (Num (- 4400000)) = Num 6900000"
  "fsub (Num 3500000) (Num (- 2500000)) = Num 6000000"
  "fl64 985 = Num 985"
  "fl64 857 = Num 857"
  "fdiv (Num 6900000) (Num 985) = Num (7702162671730355 / 1099511627776)"
  "fdiv (Num 6000000) (Num 857) = Num (7697864371827305 / 1099511627776)"
  by (rule fl64_eval fsub_eval fdiv_eval; code_simp)+

lemma basin_min_max:
  "np_min [- 4400000, 2500000] = Inr (- 4400000)"
  "np_max [- 4400000, 2500000] = Inr 2500000"
  "np_min [- 2500000, 3500000] = Inr (- 2500000)"
  "np_max [- 2500000, 3500000] = Inr 3500000"
  by (simp_all add: np_min_def np_max_def)

lemma basin_steps:
  "bin_step [- 4400000, 2500000] 985 = Inr (Num (7702162671730355 / 1099511627776))"
  "bin_step [- 2500000, 3500000] 857 = Inr (Num (7697864371827305 / 1099511627776))"
  by (simp_all add: bin_step_def basin_min_max basin_extents)

text \<open>
  Lines 56-57: the lengths that \<open>np.arange\<close> computes. The quotient
  \<open>(stop - start) / step\<close> is a float just above 986 on the x axis, with ceiling 987,
  and a float just below 858 on the y axis, with ceiling 858.
\<close>

lemma basin_stops:
  "fadd (Num 2500000) (Num (7702162671730355 / 1099511627776)) = Num (5383752406468223 / 2147483648)"
  "fadd (Num 3500000) (Num (7697864371827305 / 1099511627776)) = Num (7531227659351225 / 2147483648)"
  by (rule fadd_eval; code_simp)+

lemma basin_spans:
  "fsub (Num (5383752406468223 / 2147483648)) (Num (- 4400000)) = Num (115880316075533 / 16777216)"
  "fsub (Num (7531227659351225 / 2147483648)) (Num (- 2500000)) = Num (1612492097418903 / 268435456)"
  by (rule fsub_eval; code_simp)+

lemma basin_ratios:
  "fdiv (Num (115880316075533 / 16777216)) (Num (7702162671730355 / 1099511627776))
     = Num (8672947719897089 / 8796093022208)"
  "fdiv (Num (1612492097418903 / 268435456)) (Num (7697864371827305 / 1099511627776))
     = Num (7547047813054463 / 8796093022208)"
  by (rule fdiv_eval; code_simp)+

lemma basin_lengths:
  "arange_length (Num (8672947719897089 / 8796093022208)) = Inr 987"
  "arange_length (Num (7547047813054463 / 8796093022208)) = Inr 858"
  by code_simp+

lemma basin_edges:
  "bin_edges [- 4400000, 2500000] (Num (7702162671730355 / 1099511627776))
     = Inr (arange_fill (Num (- 4400000)) (Num (7702162671730355 / 1099511627776)) 987)"
  "bin_edges [- 2500000, 3500000] (Num (7697864371827305 / 1099511627776))
     = Inr (arange_fill (Num (- 2500000)) (Num (7697864371827305 / 1099511627776)) 858)"
  by (simp_all add: bin_edges_def np_arange_def basin_min_max basin_stops basin_spans
      basin_ratios basin_lengths)

text \<open>The last of the 858 edges of the y axis is \<open>start + 857 * delta\<close>, where \<open>delta\<close> is
  the second edge minus the first.\<close>

lemma basin_last_terms:
  "fadd (Num (- 2500000)) (Num (7697864371827305 / 1099511627776)) = Num (- (5353674228648775 / 2147483648))"
  "fsub (Num (- (5353674228648775 / 2147483648))) (Num (- 2500000)) = Num (15034891351225 / 2147483648)"
  "fmul (Num 857) (Num (15034891351225 / 2147483648)) = Num (805306367999989 / 134217728)"
  "fadd (Num (- 2500000)) (Num (805306367999989 / 134217728)) = Num (469762047999989 / 134217728)"
  by (rule fadd_eval fsub_eval fmul_eval; code_simp)+

lemma basin_last_y:
  "last (arange_fill (Num (- 2500000)) (Num (7697864371827305 / 1099511627776)) 858)
     = Num (469762047999989 / 134217728)"
proof -
  have "last (arange_fill (Num (- 2500000)) (Num (7697864371827305 / 1099511627776)) (Suc 857))
     = Num (469762047999989 / 134217728)"
    by (subst last_arange_fill) (simp_all add: basin_extents basin_last_terms)
  then show ?thesis by simp
qed

text \<open>
  Claim C1 fails on the code. On the two points \<open>(-4400000, -2500000)\<close> and
  \<open>(2500000, 3500000)\<close>, whose extent is the extent of the basin, and a resolution of
  7 km, \<open>get_map_bins\<close> returns 987 edges on the x axis, that is 986 bins where
  \<open>floor (6900000 / 7000) = 985\<close>, and 858 edges on the y axis of which the last is
  \<open>469762047999989 / 134217728 = 3499999.999999918...\<close>, below the maximum \<open>3500000\<close> of
  the data.
\<close>

theorem get_map_bins_last_edge_below_max:
  "\<exists>xb yb. get_map_bins ([- 4400000, 2500000], [- 2500000, 3500000]) (Num 7) = Inr (xb, yb)
     \<and> length xb = 987 \<and> \<lfloor>(uxextent - lxextent) / (7 * 1000)\<rfloor> = 985
     \<and> length yb = 858 \<and> \<lfloor>(uyextent - lyextent) / (7 * 1000)\<rfloor> = 857
     \<and> last yb = Num (469762047999989 / 134217728)
     \<and> 469762047999989 / 134217728 < Max (set [- 2500000, 3500000 :: rat])"
proof -
  let ?xb = "arange_fill (Num (- 4400000)) (Num (7702162671730355 / 1099511627776)) 987"
  let ?yb = "arange_fill (Num (- 2500000)) (Num (7697864371827305 / 1099511627776)) 858"
  have run: "get_map_bins ([- 4400000, 2500000], [- 2500000, 3500000]) (Num 7) = Inr (?xb, ?yb)"
    unfolding get_map_bins_def Let_def basin_counts fst_conv snd_conv sum.case
      basin_steps basin_edges ..
  have fx: "\<lfloor>(uxextent - lxextent) / (7 * 1000)\<rfloor> = 985"
    and fy: "\<lfloor>(uyextent - lyextent) / (7 * 1000)\<rfloor> = 857"
    by code_simp+
  have m: "469762047999989 / 134217728 < Max (set [- 2500000, 3500000 :: rat])" by simp
  show ?thesis
    by (intro exI conjI) (rule run length_arange_fill fx fy basin_last_y m)+
qed
text \<open>
  Two more inputs on which \<open>get_map_bins\<close> returns no edges at all. A point set with a
  single value on an axis has the step 0, and \<open>np.arange\<close> cannot compute a length from
  \<open>0 / 0\<close>. A resolution above 6900 km has the bin count 0 and an infinite step, and
  \<open>np.arange\<close> cannot compute a length from \<open>inf / inf\<close>.
\<close>

lemma degenerate_floats:
  "fl64 10000 = Num 10000"
  "fl64 690 = Num 690"
  "fl64 600 = Num 600"
  "fl64 5 = Num 5"
  "fl64 7000000 = Num 7000000"
  "fl64 (69 / 70) = Num (554907811229579 / 562949953421312)"
  "fl64 (6 / 7) = Num (7720456504063707 / 9007199254740992)"
  "fl64 1 = Num 1"
  by (rule fl64_eval; code_simp)+

lemma degenerate_floors:
  "\<lfloor>554907811229579 / 562949953421312 :: rat\<rfloor> = 0"
  "\<lfloor>7720456504063707 / 9007199254740992 :: rat\<rfloor> = 0"
  by code_simp+

lemma get_map_bins_single_value: "get_map_bins ([5], [7]) (Num 10) = Inl ValueError"
  by (simp add: get_map_bins_def bin_count_def bin_step_def bin_edges_def np_arange_def
      arange_length_def py_truediv_def math_floor_def np_max_def np_min_def
      uxextent_def lxextent_def uyextent_def lyextent_def
      fadd_def fsub_def fneg_def fmul_def fdiv_def degenerate_floats)

lemma get_map_bins_no_bins: "get_map_bins ([0, 1], [0, 1]) (Num 7000) = Inl ValueError"
  by (simp add: get_map_bins_def bin_count_def bin_step_def bin_edges_def np_arange_def
      arange_length_def py_truediv_def math_floor_def np_max_def np_min_def
      uxextent_def lxextent_def uyextent_def lyextent_def
      fadd_def fsub_def fneg_def fmul_def fdiv_def degenerate_floats degenerate_floors)

subsection \<open>The empty point set\<close>

text \<open>The bin counts are computed first, whatever the points are; \<open>np.max\<close> of line 53 is
  the first operation on the points.\<close>

lemma bin_count_cases:
  "bin_count ext r = Inl ZeroDivisionError \<or> bin_count ext r = Inl OverflowError
     \<or> bin_count ext r = Inl ValueError \<or> (\<exists>n. bin_count ext r = Inr n)"
  by (simp add: bin_count_def py_truediv_def math_floor_def split: xfloat.splits)

lemma get_map_bins_first_count:
  "bin_count (uxextent - lxextent) r = Inl e \<Longrightarrow> get_map_bins xy r = Inl e"
  by (simp add: get_map_bins_def)

lemma get_map_bins_second_count:
  "bin_count (uxextent - lxextent) r = Inr n
     \<Longrightarrow> bin_count (uyextent - lyextent) r = Inl e \<Longrightarrow> get_map_bins xy r = Inl e"
  by (simp add: get_map_bins_def)

lemma get_map_bins_empty_max:
  "bin_count (uxextent - lxextent) r = Inr n
     \<Longrightarrow> bin_count (uyextent - lyextent) r = Inr m
     \<Longrightarrow> get_map_bins ([], []) r = Inl ValueError"
  by (simp add: get_map_bins_def bin_step_def np_max_def)

lemma get_map_bins_empty_raises:
  "get_map_bins ([], []) r = Inl ValueError \<or> get_map_bins ([], []) r = Inl ZeroDivisionError
     \<or> get_map_bins ([], []) r = Inl OverflowError"
  using bin_count_cases [of "uxextent - lxextent" r]
    bin_count_cases [of "uyextent - lyextent" r]
    get_map_bins_first_count [of r _ "([], [])"] get_map_bins_second_count [of r _ _ "([], [])"]
    get_map_bins_empty_max [of r]
  by metis

lemma get_map_bins_empty_finite:
  assumes "2 powi (- 1009) \<le> \<bar>v\<bar>"
  shows "get_map_bins ([], []) (Num v) = Inl ValueError"
proof -
  obtain n where n: "bin_count (uxextent - lxextent) (Num v) = Inr n"
    using bin_count_finite [OF assms, of "uxextent - lxextent"]
    by (auto simp: uxextent_def lxextent_def)
  obtain m where m: "bin_count (uyextent - lyextent) (Num v) = Inr m"
    using bin_count_finite [OF assms, of "uyextent - lyextent"]
    by (auto simp: uyextent_def lyextent_def)
  from n m show ?thesis by (rule get_map_bins_empty_max)
qed

text \<open>
  Claim C7, as amended. On the empty point set \<open>get_map_bins\<close> always raises, and one of
  three exceptions, whatever float the resolution is. It is the ValueError of \<open>np.max\<close>
  on a zero-size array when the resolution has a magnitude of at least \<open>2\<^sup>-\<^sup>1\<^sup>0\<^sup>0\<^sup>9\<close> (about
  \<open>1.8e-304\<close>) or is infinite, and the ValueError of \<open>math.floor\<close> when it is NaN;
  ZeroDivisionError when the resolution is zero; the OverflowError of \<open>math.floor\<close>
  when the magnitude of the resolution is between \<open>2\<^sup>-\<^sup>1\<^sup>0\<^sup>2\<^sup>0\<close> and \<open>2\<^sup>-\<^sup>1\<^sup>0\<^sup>1\<^sup>2\<close> (about
  \<open>8.9e-308\<close> and \<open>2.3e-305\<close>), where the quotient of line 46 is infinite.
\<close>

theorem get_map_bins_empty:
  "(get_map_bins ([], []) r = Inl ValueError \<or> get_map_bins ([], []) r = Inl ZeroDivisionError
      \<or> get_map_bins ([], []) r = Inl OverflowError)
   \<and> (2 powi (- 1009) \<le> \<bar>v\<bar> \<longrightarrow> get_map_bins ([], []) (Num v) = Inl ValueError)
   \<and> get_map_bins ([], []) (Infty s) = Inl ValueError
   \<and> get_map_bins ([], []) Nan = Inl ValueError
   \<and> get_map_bins ([], []) (Num 0) = Inl ZeroDivisionError
   \<and> (2 powi (- 1020) \<le> \<bar>w\<bar> \<and> \<bar>w\<bar> \<le> 2 powi (- 1012)
        \<longrightarrow> get_map_bins ([], []) (Num w) = Inl OverflowError)"
proof (intro conjI impI)
  show "get_map_bins ([], []) r = Inl ValueError \<or> get_map_bins ([], []) r = Inl ZeroDivisionError
      \<or> get_map_bins ([], []) r = Inl OverflowError"
    by (rule get_map_bins_empty_raises)
next
  assume "2 powi (- 1009) \<le> \<bar>v\<bar>"
  then show "get_map_bins ([], []) (Num v) = Inl ValueError" by (rule get_map_bins_empty_finite)
next
  show "get_map_bins ([], []) (Infty s) = Inl ValueError"
    by (rule get_map_bins_empty_max) (rule bin_count_infinite)+
next
  show "get_map_bins ([], []) Nan = Inl ValueError"
    by (rule get_map_bins_first_count) (rule bin_count_nan)
next
  show "get_map_bins ([], []) (Num 0) = Inl ZeroDivisionError"
    by (rule get_map_bins_first_count) (rule bin_count_zero)
next
  assume "2 powi (- 1020) \<le> \<bar>w\<bar> \<and> \<bar>w\<bar> \<le> 2 powi (- 1012)"
  then have "bin_count (uxextent - lxextent) (Num w) = Inl OverflowError"
    by (intro bin_count_overflow) (simp_all add: uxextent_def lxextent_def)
  then show "get_map_bins ([], []) (Num w) = Inl OverflowError"
    by (rule get_map_bins_first_count)
qed

theorem get_map_bins_empty_witness:
  "get_map_bins ([], []) (Num 10) = Inl ValueError
   \<and> get_map_bins ([], []) (Num (2 powi (- 1016))) = Inl OverflowError"
proof -
  have "(2::rat) powi (- 1009) \<le> 2 powi 0" by (rule two_powi_le) simp
  also have "(2::rat) powi 0 \<le> \<bar>10\<bar>" by simp
  finally have a: "2 powi (- 1009) \<le> \<bar>10 :: rat\<bar>" .
  have e: "\<bar>(2::rat) powi (- 1016)\<bar> = 2 powi (- 1016)"
    by (rule abs_of_pos) (rule two_powi_pos)
  have c: "2 powi (- 1020) \<le> \<bar>(2::rat) powi (- 1016)\<bar>
      \<and> \<bar>(2::rat) powi (- 1016)\<bar> \<le> 2 powi (- 1012)"
    unfolding e by (intro conjI two_powi_le) simp_all
  from get_map_bins_empty [of _ 10 _ "2 powi (- 1016)"] a c
  show ?thesis by blast
qed

text \<open>Claim C7 as stated fails: the error raised is not \<open>InsufficientDataError\<close>.\<close>

theorem get_map_bins_empty_counterexample:
  "get_map_bins ([], []) (Num 10) \<noteq> Inl InsufficientDataError"
proof -
  have "(2::rat) powi (- 1009) \<le> 2 powi 0" by (rule two_powi_le) simp
  also have "(2::rat) powi 0 \<le> \<bar>10\<bar>" by simp
  finally have "get_map_bins ([], []) (Num 10) = Inl ValueError"
    by (rule get_map_bins_empty_finite)
  then show ?thesis by simp
qed

section \<open>Properties of the coverage rasterizer\<close>

lemma takeWhile_length_iff:
  assumes "n \<le> length es"
  shows "length (takeWhile P es) = n \<longleftrightarrow>
         (\<forall>k<n. P (es ! k)) \<and> (n < length es \<longrightarrow> \<not> P (es ! n))"
proof
  assume L: "length (takeWhile P es) = n"
  have "\<forall>k<n. P (es ! k)"
  proof (intro allI impI)
    fix k assume "k < n"
    then have "k < length (takeWhile P es)" using L by simp
    then have "P (takeWhile P es ! k)" using nth_mem set_takeWhileD by metis
    then show "P (es ! k)" using \<open>k < length (takeWhile P es)\<close> by (simp add: takeWhile_nth)
  qed
  moreover have "n < length es \<longrightarrow> \<not> P (es ! n)"
    using L nth_length_takeWhile by blast
  ultimately show "(\<forall>k<n. P (es ! k)) \<and> (n < length es \<longrightarrow> \<not> P (es ! n))" by simp
next
  assume R: "(\<forall>k<n. P (es ! k)) \<and> (n < length es \<longrightarrow> \<not> P (es ! n))"
  then have ge: "n \<le> length (takeWhile P es)"
    using assms by (simp add: length_takeWhile_less_P_nth)
  have "\<not> n < length (takeWhile P es)"
  proof
    assume lt: "n < length (takeWhile P es)"
    then have "P (takeWhile P es ! n)" using nth_mem set_takeWhileD by metis
    then have "P (es ! n)" using lt by (simp add: takeWhile_nth)
    moreover have "n < length es" using lt length_takeWhile_le [of P es] by simp
    ultimately show False using R by simp
  qed
  then show "length (takeWhile P es) = n" using ge by simp
qed

lemma searchsorted_right_sorted:
  assumes "sorted es" "i < length es"
  shows "searchsorted_right es v = i + 1 \<longleftrightarrow>
         es ! i \<le> v \<and> (i + 1 < length es \<longrightarrow> v < es ! (i + 1))"
proof -
  have "(\<forall>k<i + 1. es ! k \<le> v) \<longleftrightarrow> es ! i \<le> v"
  proof
    assume "\<forall>k<i + 1. es ! k \<le> v" then show "es ! i \<le> v" by simp
  next
    assume a: "es ! i \<le> v"
    show "\<forall>k<i + 1. es ! k \<le> v"
    proof (intro allI impI)
      fix k assume "k < i + 1"
      then have "es ! k \<le> es ! i" using assms by (simp add: sorted_nth_mono)
      then show "es ! k \<le> v" using a by simp
    qed
  qed
  then show ?thesis
    unfolding searchsorted_right_def
    using takeWhile_length_iff [of "i + 1" es "\<lambda>e. e \<le> v"] assms(2)
    by (auto simp: not_le)
qed

lemma searchsorted_right_last:
  assumes "sorted es"
  shows "searchsorted_right es (last es) = length es"
proof (cases "es = []")
  case True then show ?thesis by (simp add: searchsorted_right_def)
next
  case False
  have "\<forall>e \<in> set es. e \<le> last es"
  proof
    fix e assume "e \<in> set es"
    then obtain k where k: "k < length es" "es ! k = e" by (auto simp: in_set_conv_nth)
    have "es ! k \<le> es ! (length es - 1)"
      by (rule sorted_nth_mono [OF assms]) (use k False in auto)
    then show "e \<le> last es" using k False by (simp add: last_conv_nth)
  qed
  then have tw: "takeWhile (\<lambda>e. e \<le> last es) es = es"
    unfolding takeWhile_eq_all_conv by simp
  show ?thesis unfolding searchsorted_right_def tw by (rule refl)
qed

text \<open>On sorted edges the bin numbers of \<open>histogramdd\<close> are the documented intervals.\<close>

lemma bin_number_in_bin:
  assumes "sorted es" "i + 1 < length es"
  shows "bin_number es v = i + 1 \<longleftrightarrow> in_bin es i v"
proof (cases "v = last es")
  case True
  have ne: "es \<noteq> []" using assms(2) by auto
  have le: "es ! i \<le> last es" "es ! (i + 1) \<le> last es"
    using assms ne by (simp_all add: last_conv_nth sorted_nth_mono)
  have "bin_number es v = length es - 1"
    using True searchsorted_right_last [OF assms(1)] by (simp add: bin_number_def)
  moreover have "in_bin es i v \<longleftrightarrow> i + 2 = length es"
  proof
    assume "in_bin es i v"
    then show "i + 2 = length es" using True le by (auto simp: in_bin_def)
  next
    assume l: "i + 2 = length es"
    then have "length es - 1 = i + 1" by simp
    then have "last es = es ! (i + 1)" using ne by (simp add: last_conv_nth)
    then show "in_bin es i v" using True le l by (simp add: in_bin_def)
  qed
  ultimately show ?thesis using assms(2) by auto
next
  case False
  have i: "i < length es" using assms(2) by simp
  have "bin_number es v = searchsorted_right es v" using False by (simp add: bin_number_def)
  moreover have "in_bin es i v \<longleftrightarrow> es ! i \<le> v \<and> v < es ! (i + 1)"
  proof -
    have "\<not> (i + 2 = length es \<and> v = es ! (i + 1))"
    proof
      assume a: "i + 2 = length es \<and> v = es ! (i + 1)"
      then have "length es - 1 = i + 1" "es \<noteq> []" by auto
      then have "last es = es ! (i + 1)" by (simp add: last_conv_nth)
      then show False using a False by simp
    qed
    then show ?thesis unfolding in_bin_def by blast
  qed
  ultimately show ?thesis
    using searchsorted_right_sorted [OF assms(1) i, of v] assms(2) by simp
qed

lemma clamp_of_nat:
  "(if (of_nat c :: rat) > 1 then 1 else of_nat c) = (if c = 0 then 0 else 1)"
proof (cases "c = 0 \<or> c = 1")
  case True then show ?thesis by auto
next
  case False
  then have "2 \<le> c" by simp
  then have "(1::rat) < of_nat c" by simp
  then show ?thesis using False by simp
qed

lemma cell_count_pos:
  assumes "length x = length y"
  shows "cell_count x y xe ye i j \<noteq> 0 \<longleftrightarrow>
         (\<exists>k < length x. bin_number xe (x ! k) = i + 1 \<and> bin_number ye (y ! k) = j + 1)"
proof -
  have "cell_count x y xe ye i j \<noteq> 0 \<longleftrightarrow>
        (\<exists>p \<in> set (zip x y). bin_number xe (fst p) = i + 1 \<and> bin_number ye (snd p) = j + 1)"
    by (force simp: cell_count_def filter_empty_conv)
  also have "\<dots> \<longleftrightarrow>
        (\<exists>k < length x. bin_number xe (x ! k) = i + 1 \<and> bin_number ye (y ! k) = j + 1)"
    using assms by (auto simp: set_zip)
  finally show ?thesis .
qed

lemma coverage_histogram2d_ok:
  assumes "length xi = length yj" "bins_ok xb" "bins_ok yb"
  shows "coverage_histogram2d (xi, yj) xb yb = Inr (occupancy xi yj xb yb)"
  using assms
  by (simp add: coverage_histogram2d_def np_histogram2d_def bins_ok_def set_above_def
      occupancy_def clamp_of_nat comp_def)

lemma occupancy_binary: "h \<in> set (concat (rows (occupancy xi yj xb yb))) \<Longrightarrow> h = 0 \<or> h = 1"
  by (auto simp: occupancy_def)

lemma occupancy_cell:
  assumes "length xi = length yj" "sorted xb" "sorted yb"
    and "i < length xb - 1" "j < length yb - 1"
  shows "rows (occupancy xi yj xb yb) ! i ! j =
         (if \<exists>k<length xi. in_bin xb i (xi ! k) \<and> in_bin yb j (yj ! k) then 1 else 0)"
proof -
  have i: "i + 1 < length xb" and j: "j + 1 < length yb" using assms(4,5) by auto
  have "rows (occupancy xi yj xb yb) ! i ! j = (if cell_count xi yj xb yb i j = 0 then 0 else 1)"
    using assms(4,5) by (simp add: occupancy_def)
  moreover have "cell_count xi yj xb yb i j \<noteq> 0 \<longleftrightarrow>
      (\<exists>k<length xi. in_bin xb i (xi ! k) \<and> in_bin yb j (yj ! k))"
    unfolding cell_count_pos [OF assms(1)]
    using bin_number_in_bin [OF assms(2) i] bin_number_in_bin [OF assms(3) j] by simp
  ultimately show ?thesis by auto
qed

text \<open>
  Claim C5. For coordinate arrays of equal length and edge arrays that \<open>np.histogram2d\<close>
  accepts (non-empty, increasing), \<open>coverage_histogram2d\<close> returns a grid with one row per
  x bin and one column per y bin, in which the cell \<open>(i, j)\<close> is \<open>1\<close> when some point lies
  in x bin \<open>i\<close> and y bin \<open>j\<close>, and \<open>0\<close> otherwise; so every cell is \<open>0\<close> or \<open>1\<close>.
\<close>

theorem coverage_histogram2d_binary:
  assumes "length xi = length yj" "bins_ok xb" "bins_ok yb"
  shows "\<exists>H. coverage_histogram2d (xi, yj) xb yb = Inr H
           \<and> nrows H = length xb - 1 \<and> ncols H = length yb - 1
           \<and> length (rows H) = nrows H
           \<and> (\<forall>i<nrows H. length (rows H ! i) = ncols H
                \<and> (\<forall>j<ncols H. rows H ! i ! j =
                      (if \<exists>k<length xi. in_bin xb i (xi ! k) \<and> in_bin yb j (yj ! k)
                       then 1 else 0)))
           \<and> (\<forall>h \<in> set (concat (rows H)). h = 0 \<or> h = 1)"
proof -
  let ?H = "occupancy xi yj xb yb"
  have s: "sorted xb" "sorted yb" using assms(2,3) by (simp_all add: bins_ok_def)
  have 1: "coverage_histogram2d (xi, yj) xb yb = Inr ?H"
    by (rule coverage_histogram2d_ok [OF assms])
  have 2: "nrows ?H = length xb - 1" "ncols ?H = length yb - 1" "length (rows ?H) = nrows ?H"
    by (simp_all add: occupancy_def)
  have 3: "\<forall>i<nrows ?H. length (rows ?H ! i) = ncols ?H" by (simp add: occupancy_def)
  have 4: "\<forall>i<nrows ?H. \<forall>j<ncols ?H. rows ?H ! i ! j =
             (if \<exists>k<length xi. in_bin xb i (xi ! k) \<and> in_bin yb j (yj ! k) then 1 else 0)"
    using occupancy_cell [OF assms(1) s] 2 by simp
  have 5: "\<forall>h \<in> set (concat (rows ?H)). h = 0 \<or> h = 1"
    using occupancy_binary by blast
  from 1 2 3 4 5 show ?thesis by blast
qed

theorem coverage_histogram2d_binary_witness:
  "\<exists>H. coverage_histogram2d ([0, 1 / 2, 1 / 2, 2, 3, 1], [0, 1 / 2, 1 / 2, 2, 0, 1]) [0, 1, 2] [0, 1, 2]
          = Inr H
      \<and> nrows H = 2 \<and> ncols H = 2 \<and> (\<forall>h \<in> set (concat (rows H)). h = 0 \<or> h = 1)"
proof -
  have h1: "length [0, 1 / 2, 1 / 2, 2, 3, 1 :: rat] = length [0, 1 / 2, 1 / 2, 2, 0, 1 :: rat]"
    by simp
  have h2: "bins_ok [0, 1, 2]" by (simp add: bins_ok_def)
  from coverage_histogram2d_binary [OF h1 h2 h2]
  obtain H where
    "coverage_histogram2d ([0, 1 / 2, 1 / 2, 2, 3, 1], [0, 1 / 2, 1 / 2, 2, 0, 1]) [0, 1, 2] [0, 1, 2]
       = Inr H"
    "nrows H = length [0, 1, 2 :: rat] - 1" "ncols H = length [0, 1, 2 :: rat] - 1"
    "\<forall>h \<in> set (concat (rows H)). h = 0 \<or> h = 1"
    by blast
  then show ?thesis by auto
qed

text \<open>
  Claim C6. For the empty point set and edge arrays that \<open>np.histogram2d\<close> accepts,
  \<open>coverage_histogram2d\<close> returns (raising nothing) the all-zero grid with one row per x
  bin and one column per y bin.
\<close>

theorem coverage_histogram2d_empty:
  assumes "bins_ok xb" "bins_ok yb"
  shows "coverage_histogram2d ([], []) xb yb = Inr (zeros (length xb - 1) (length yb - 1))"
proof -
  have "occupancy [] [] xb yb = zeros (length xb - 1) (length yb - 1)"
    by (simp add: occupancy_def zeros_def cell_count_def map_replicate_const)
  then show ?thesis
    using coverage_histogram2d_ok [of "[]" "[]" xb yb] assms by simp
qed

theorem coverage_histogram2d_empty_witness:
  "coverage_histogram2d ([], []) [0, 1, 2] [0, 1, 2, 3] =
     Inr \<lparr>nrows = 2, ncols = 3, rows = [[0, 0, 0], [0, 0, 0]]\<rparr>"
proof -
  have h1: "bins_ok [0, 1, 2]" and h2: "bins_ok [0, 1, 2, 3]" by (simp_all add: bins_ok_def)
  show ?thesis
    using coverage_histogram2d_empty [OF h1 h2] by (simp add: zeros_def numeral_eq_Suc)
qed

section \<open>Properties of the time-series aggregation\<close>


lemma accumulated_le: "accumulated ivs \<le> length ivs"
  by (simp add: accumulated_def)


lemma timeseries_loop_abort:
  "timeseries_loop i (Loader_raises # rest) area dps xb yb df = Inl DataFileError"
  by simp















section \<open>Properties of the frequency-grid aggregation\<close>

lemma coverage_histogram2d_Inr:
  assumes "coverage_histogram2d xy xb yb = Inr h"
  shows "h = occupancy (fst xy) (snd xy) xb yb"
proof -
  have "length (fst xy) = length (snd xy) \<and> bins_ok xb \<and> bins_ok yb"
    using assms
    by (auto simp: coverage_histogram2d_def np_histogram2d_def bins_ok_def Let_def
        split: if_splits)
  then show ?thesis
    using assms coverage_histogram2d_ok [of "fst xy" "snd xy" xb yb] by simp
qed

lemma wf_occupancy: "wf_grid (occupancy xi yj xb yb)"
  by (auto simp: wf_grid_def occupancy_def)

lemma set_above_occupancy: "set_above 0 (occupancy xi yj xb yb) = occupancy xi yj xb yb"
  by (simp add: set_above_def occupancy_def comp_def)

lemma flat_as_grid: "concat (rows (as_grid H)) = flat H"
  by (cases H) simp_all

lemma wf_grid_nth:
  assumes "wf_grid g" "i < nrows g" "j < ncols g"
  shows "rows g ! i ! j \<in> set (concat (rows g))"
proof -
  have i: "i < length (rows g)" using assms(1,2) by (simp add: wf_grid_def)
  then have r: "rows g ! i \<in> set (rows g)" by simp
  then have "length (rows g ! i) = ncols g" using assms(1) by (simp add: wf_grid_def)
  then have "rows g ! i ! j \<in> set (rows g ! i)" using assms(3) by simp
  then show ?thesis using r by auto
qed

lemma bdim_index:
  assumes "bdim m n = Some r" "i < r"
  shows "(if m = 1 then 0 else i) < m" "(if n = 1 then 0 else i) < n"
  using assms by (auto simp: bdim_def split: if_splits)

text \<open>One addition raises every bound by at most the bound of the added grid.\<close>

lemma np_add_inv:
  assumes "sum_inv k H" "wf_grid B" "\<forall>h \<in> set (concat (rows B)). h \<le> 1"
    and "np_add H B = Inr H2"
  shows "sum_inv (k + 1) H2"
proof -
  let ?A = "as_grid H"
  from assms(4) obtain r c where
    r: "bdim (nrows ?A) (nrows B) = Some r" and c: "bdim (ncols ?A) (ncols B) = Some c"
    by (auto simp: np_add_def Let_def split: option.splits)
  let ?f = "\<lambda>i j. rows ?A ! (if nrows ?A = 1 then 0 else i) ! (if ncols ?A = 1 then 0 else j)
                 + rows B ! (if nrows B = 1 then 0 else i) ! (if ncols B = 1 then 0 else j)"
  let ?g = "\<lparr>nrows = r, ncols = c, rows = map (\<lambda>i. map (\<lambda>j. ?f i j) [0 ..< c]) [0 ..< r]\<rparr>"
  have H2: "H2 = Array2 ?g"
    using assms(4) r c by (simp add: np_add_def Let_def)
  have wfA: "wf_grid ?A" and bA: "\<forall>h \<in> set (concat (rows ?A)). h \<le> of_nat k"
    using assms(1) by (simp_all add: sum_inv_def flat_as_grid)
  have cell: "?f i j \<le> of_nat (k + 1)" if "i < r" "j < c" for i j
  proof -
    have "rows ?A ! (if nrows ?A = 1 then 0 else i) ! (if ncols ?A = 1 then 0 else j)
            \<in> set (concat (rows ?A))"
      by (rule wf_grid_nth [OF wfA bdim_index(1) [OF r that(1)] bdim_index(1) [OF c that(2)]])
    then have a: "rows ?A ! (if nrows ?A = 1 then 0 else i) ! (if ncols ?A = 1 then 0 else j)
            \<le> of_nat k"
      using bA by blast
    have "rows B ! (if nrows B = 1 then 0 else i) ! (if ncols B = 1 then 0 else j)
            \<in> set (concat (rows B))"
      by (rule wf_grid_nth [OF assms(2) bdim_index(2) [OF r that(1)] bdim_index(2) [OF c that(2)]])
    then have b: "rows B ! (if nrows B = 1 then 0 else i) ! (if ncols B = 1 then 0 else j) \<le> 1"
      using assms(3) by blast
    from a b show ?thesis by simp
  qed
  have "wf_grid ?g" by (auto simp: wf_grid_def)
  moreover have "\<forall>h \<in> set (concat (rows ?g)). h \<le> of_nat (k + 1)"
    using cell by auto
  ultimately show ?thesis by (simp add: sum_inv_def H2)
qed

lemma length_chunks: "length (chunks r c xs) = r"
  by (induction r arbitrary: xs) simp_all

lemma chunks_rows: "r * c \<le> length xs \<Longrightarrow> row \<in> set (chunks r c xs) \<Longrightarrow> length row = c"
proof (induction r arbitrary: xs)
  case 0
  then show ?case by simp
next
  case (Suc r)
  have c: "c \<le> length xs" using Suc.prems(1) by simp
  have d: "r * c \<le> length (drop c xs)" using Suc.prems(1) by simp
  from Suc.prems(2) have "row = take c xs \<or> row \<in> set (chunks r c (drop c xs))" by simp
  then show ?case
  proof
    assume "row = take c xs"
    then show ?thesis using c by simp
  next
    assume "row \<in> set (chunks r c (drop c xs))"
    from Suc.IH [OF d this] show ?thesis .
  qed
qed

lemma set_chunks: "x \<in> set (concat (chunks r c xs)) \<Longrightarrow> x \<in> set xs"
proof (induction r arbitrary: xs)
  case 0
  then show ?case by simp
next
  case (Suc r)
  from Suc.prems have "x \<in> set (take c xs) \<or> x \<in> set (concat (chunks r c (drop c xs)))"
    by simp
  then show ?case
  proof
    assume "x \<in> set (take c xs)"
    then show ?thesis by (rule in_set_takeD)
  next
    assume "x \<in> set (concat (chunks r c (drop c xs)))"
    from Suc.IH [OF this] show ?thesis by (rule in_set_dropD)
  qed
qed

lemma padded_set:
  fixes fs :: "rat list"
  assumes "h \<in> set (take n fs @ replicate (n - length fs) 0)"
  shows "h \<in> set fs \<or> h = 0"
proof -
  from assms have "h \<in> set (take n fs) \<or> h = 0" by (auto split: if_splits)
  then show ?thesis using in_set_takeD by fast
qed

lemma sum_inv_grid:
  assumes "\<forall>h \<in> set (concat rs). h \<le> of_nat k"
    and "\<forall>row \<in> set rs. length row = c"
    and "length rs = r"
  shows "sum_inv k (Array2 \<lparr>nrows = r, ncols = c, rows = rs\<rparr>)"
  unfolding sum_inv_def wf_grid_def using assms by simp

lemma np_resize_inv:
  assumes "\<forall>h \<in> set (flat H). h \<le> of_nat k"
  shows "sum_inv k (np_resize H (r, c))"
proof -
  let ?xs = "take (r * c) (flat H) @ replicate (r * c - length (flat H)) 0"
  have len: "r * c \<le> length ?xs" by simp
  have 1: "\<forall>h \<in> set (concat (chunks r c ?xs)). h \<le> of_nat k"
  proof
    fix h assume "h \<in> set (concat (chunks r c ?xs))"
    then have "h \<in> set ?xs" by (rule set_chunks)
    then have "h \<in> set (flat H) \<or> h = 0" by (rule padded_set)
    then show "h \<le> of_nat k" using assms by auto
  qed
  have 2: "\<forall>row \<in> set (chunks r c ?xs). length row = c"
  proof
    fix row assume "row \<in> set (chunks r c ?xs)"
    from chunks_rows [OF len this] show "length row = c" .
  qed
  have 3: "np_resize H (r, c) = Array2 \<lparr>nrows = r, ncols = c, rows = chunks r c ?xs\<rparr>"
    by (simp add: np_resize_def)
  show ?thesis
    unfolding 3 by (rule sum_inv_grid [OF 1 2 length_chunks])
qed

text \<open>The four ways through the body of the loop.\<close>

lemma set_above_shape: "nrows (set_above t h) = nrows h" "ncols (set_above t h) = ncols h"
  by (simp_all add: set_above_def)

lemma frequency_loop_abort:
  "frequency_loop i (Loader_raises # rest) xb yb H = Inl DataFileError"
  by simp

lemma frequency_loop_skip:
  "frequency_loop i (No_coordinates # rest) xb yb H = frequency_loop (i + 1) rest xb yb H"
  by simp

lemma frequency_loop_raise:
  "coverage_histogram2d xy xb yb = Inl e \<Longrightarrow>
   frequency_loop i (Points xy # rest) xb yb H = Inl e"
  by simp

lemma frequency_loop_add:
  "coverage_histogram2d xy xb yb = Inr h \<Longrightarrow>
   frequency_loop i (Points xy # rest) xb yb H =
     (case np_add (if i = 0 then np_resize H (nrows h, ncols h) else H) (set_above 0 h) of
        Inl e \<Rightarrow> Inl e
      | Inr H2 \<Rightarrow> frequency_loop (i + 1) rest xb yb H2)"
  by (simp add: Let_def set_above_shape)

declare frequency_loop.simps(2) [simp del]

text \<open>The invariant along the loop: every accumulated interval raises the bound by one.\<close>

lemma frequency_loop_inv:
  assumes "sum_inv k H" "frequency_loop i ivs xb yb H = Inr out"
  shows "sum_inv (k + accumulated ivs) out"
  using assms
proof (induction ivs arbitrary: i k H)
  case Nil
  then show ?case by (simp add: accumulated_def)
next
  case (Cons iv rest)
  show ?case
  proof (cases iv)
    case Loader_raises
    from Cons.prems(2) show ?thesis unfolding Loader_raises frequency_loop_abort by simp
  next
    case No_coordinates
    have "frequency_loop (i + 1) rest xb yb H = Inr out"
      using Cons.prems(2) unfolding No_coordinates frequency_loop_skip .
    from Cons.IH [OF Cons.prems(1) this] show ?thesis using No_coordinates by (simp add: accumulated_def)
  next
    case (Points xy)
    have "\<exists>h. coverage_histogram2d xy xb yb = Inr h"
    proof (cases "coverage_histogram2d xy xb yb")
      case (Inl e)
      from Cons.prems(2) show ?thesis unfolding Points frequency_loop_raise [OF Inl] by simp
    next
      case (Inr h)
      then show ?thesis by blast
    qed
    then obtain h where h: "coverage_histogram2d xy xb yb = Inr h" by blast
    let ?o = "occupancy (fst xy) (snd xy) xb yb"
    have ho: "h = ?o" by (rule coverage_histogram2d_Inr [OF h])
    let ?H1 = "if i = 0 then np_resize H (nrows h, ncols h) else H"
    have inv1: "sum_inv k ?H1"
    proof (cases "i = 0")
      case True
      have "\<forall>x \<in> set (flat H). x \<le> of_nat k" using Cons.prems(1) by (simp add: sum_inv_def)
      from np_resize_inv [OF this] show ?thesis using True by simp
    next
      case False
      then show ?thesis using Cons.prems(1) by simp
    qed
    have loop: "(case np_add ?H1 (set_above 0 h) of Inl e \<Rightarrow> Inl e
                 | Inr H2 \<Rightarrow> frequency_loop (i + 1) rest xb yb H2) = Inr out"
      using Cons.prems(2) unfolding Points frequency_loop_add [OF h] .
    have "\<exists>H2. np_add ?H1 (set_above 0 h) = Inr H2"
    proof (cases "np_add ?H1 (set_above 0 h)")
      case (Inl e)
      with loop show ?thesis by simp
    next
      case (Inr H2)
      then show ?thesis by blast
    qed
    then obtain H2 where H2: "np_add ?H1 (set_above 0 h) = Inr H2" by blast
    with loop have rest: "frequency_loop (i + 1) rest xb yb H2 = Inr out" by simp
    have sa: "set_above 0 h = ?o" unfolding ho by (rule set_above_occupancy)
    have b: "\<forall>x \<in> set (concat (rows ?o)). x \<le> 1"
    proof
      fix x assume "x \<in> set (concat (rows ?o))"
      from occupancy_binary [OF this] show "x \<le> 1" by auto
    qed
    have "np_add ?H1 ?o = Inr H2" using H2 unfolding sa .
    from np_add_inv [OF inv1 wf_occupancy b this] have "sum_inv (k + 1) H2" .
    from Cons.IH [OF this rest] show ?thesis using Points by (simp add: accumulated_def)
  qed
qed

text \<open>The run over a list passes through the state reached on each of its prefixes.\<close>

lemma frequency_loop_append:
  "frequency_loop i (xs @ ys) xb yb H =
     (case frequency_loop i xs xb yb H of
        Inl e \<Rightarrow> Inl e
      | Inr H1 \<Rightarrow> frequency_loop (i + length xs) ys xb yb H1)"
proof (induction xs arbitrary: i H)
  case Nil
  show ?case by simp
next
  case (Cons iv rest)
  have n: "i + 1 + length rest = i + length (iv # rest)" by simp
  show ?case
  proof (cases iv)
    case Loader_raises
    show ?thesis unfolding Loader_raises append_Cons frequency_loop_abort by simp
  next
    case No_coordinates
    show ?thesis
      unfolding No_coordinates append_Cons frequency_loop_skip Cons.IH n [unfolded No_coordinates] ..
  next
    case (Points xy)
    show ?thesis
    proof (cases "coverage_histogram2d xy xb yb")
      case (Inl e)
      show ?thesis unfolding Points append_Cons frequency_loop_raise [OF Inl] by simp
    next
      case h: (Inr h)
      let ?H1 = "if i = 0 then np_resize H (nrows h, ncols h) else H"
      show ?thesis
      proof (cases "np_add ?H1 (set_above 0 h)")
        case (Inl e)
        show ?thesis unfolding Points append_Cons frequency_loop_add [OF h] Inl by simp
      next
        case (Inr H2)
        show ?thesis
          unfolding Points append_Cons frequency_loop_add [OF h] Inr sum.case Cons.IH
            n [unfolded Points] ..
      qed
    qed
  qed
qed

text \<open>
  Claim C4. After any number \<open>n\<close> of steps of the frequency-grid aggregation (the state
  then is the result of the run on the first \<open>n\<close> intervals; \<open>n\<close> at least the number of
  intervals gives the final sum), every cell of the running sum is at most the number of
  intervals accumulated so far.
\<close>

theorem frequency_sum_bounded:
  assumes "interval_frequency_histogram2d (take n ivs) xb yb = Inr H"
  shows "\<forall>h \<in> set (flat H). h \<le> of_nat (accumulated (take n ivs))"
proof -
  have "sum_inv 0 (Array1 [])" by (simp add: sum_inv_def wf_grid_def)
  from frequency_loop_inv [OF this] assms
  have "sum_inv (0 + accumulated (take n ivs)) H"
    unfolding interval_frequency_histogram2d_def by blast
  then show ?thesis by (simp add: sum_inv_def)
qed

theorem frequency_sum_bounded_witness:
  "interval_frequency_histogram2d
      (take 3 [Points ([0, 1 / 2, 2], [0, 1 / 2, 2]), No_coordinates, Points ([0], [0]), Points ([0], [0])])
      [0, 1, 2] [0, 1, 2]
     = Inr (Array2 \<lparr>nrows = 2, ncols = 2, rows = [[2, 0], [0, 1]]\<rparr>)
   \<and> list_all (\<lambda>h. h \<le> of_nat (accumulated
                 (take 3 [Points ([0, 1 / 2, 2], [0, 1 / 2, 2]), No_coordinates, Points ([0], [0]), Points ([0], [0])])))
        (flat (Array2 \<lparr>nrows = 2, ncols = 2, rows = [[2, 0], [0, 1]]\<rparr>))"
proof -
  have r: "interval_frequency_histogram2d
      (take 3 [Points ([0, 1 / 2, 2], [0, 1 / 2, 2]), No_coordinates, Points ([0], [0]), Points ([0], [0])])
      [0, 1, 2] [0, 1, 2]
     = Inr (Array2 \<lparr>nrows = 2, ncols = 2, rows = [[2, 0], [0, 1]]\<rparr>)"
    by code_simp
  from frequency_sum_bounded [OF r] r show ?thesis
    unfolding list_all_iff by blast
qed

section \<open>The shape of the running sum\<close>

lemma np_add_same_shape:
  assumes "nrows g = nrows B" "ncols g = ncols B"
  shows "\<exists>g2. np_add (Array2 g) B = Inr (Array2 g2) \<and> nrows g2 = nrows B \<and> ncols g2 = ncols B"
  using assms by (simp add: np_add_def bdim_def)

lemma np_resize_shape:
  "\<exists>g. np_resize H (r, c) = Array2 g \<and> nrows g = r \<and> ncols g = c"
  by (simp add: np_resize_def)

lemma occupancy_shape:
  "nrows (occupancy xi yj xb yb) = length xb - 1" "ncols (occupancy xi yj xb yb) = length yb - 1"
  by (simp_all add: occupancy_def)

text \<open>Once the sum has the shape of the grid, every later addition keeps it.\<close>

lemma frequency_loop_shaped:
  assumes "bins_ok xb" "bins_ok yb"
    and "\<forall>xy. Points xy \<in> set ivs \<longrightarrow> length (fst xy) = length (snd xy)"
    and "nrows g = length xb - 1" "ncols g = length yb - 1" "i \<noteq> 0"
    and "Loader_raises \<notin> set ivs"
  shows "\<exists>g2. frequency_loop i ivs xb yb (Array2 g) = Inr (Array2 g2)
           \<and> nrows g2 = length xb - 1 \<and> ncols g2 = length yb - 1"
  using assms(3-7)
proof (induction ivs arbitrary: i g)
  case Nil
  then show ?case by simp
next
  case (Cons iv rest)
  have r: "\<forall>xy. Points xy \<in> set rest \<longrightarrow> length (fst xy) = length (snd xy)"
    using Cons.prems(1) by simp
  have n: "Loader_raises \<notin> set rest" using Cons.prems(5) by simp
  show ?case
  proof (cases iv)
    case Loader_raises
    then show ?thesis using Cons.prems(5) by simp
  next
    case No_coordinates
    show ?thesis
      unfolding No_coordinates frequency_loop_skip
      by (rule Cons.IH [OF r Cons.prems(2,3) _ n]) simp
  next
    case (Points xy)
    let ?o = "occupancy (fst xy) (snd xy) xb yb"
    have "Points xy \<in> set (iv # rest)" using Points by simp
    then have "length (fst xy) = length (snd xy)" using Cons.prems(1) by blast
    then have h: "coverage_histogram2d xy xb yb = Inr ?o"
      using coverage_histogram2d_ok [of "fst xy" "snd xy" xb yb] assms(1,2) by simp
    have "nrows g = nrows ?o" "ncols g = ncols ?o"
      using Cons.prems(2,3) by (simp_all add: occupancy_shape)
    from np_add_same_shape [OF this] obtain g2 where
      g2: "np_add (Array2 g) ?o = Inr (Array2 g2)" "nrows g2 = length xb - 1"
          "ncols g2 = length yb - 1"
      by (auto simp: occupancy_shape)
    have step: "frequency_loop i (Points xy # rest) xb yb (Array2 g) =
                frequency_loop (i + 1) rest xb yb (Array2 g2)"
      unfolding frequency_loop_add [OF h] set_above_occupancy
      using Cons.prems(4) g2(1) by simp
    show ?thesis
      unfolding Points step by (rule Cons.IH [OF r g2(2,3) _ n]) simp
  qed
qed

text \<open>
  When the first interval is not skipped, the sum takes the shape of its grid and the
  whole aggregation succeeds with that shape, whichever later intervals are skipped.
\<close>

lemma frequency_first_loaded:
  assumes "bins_ok xb" "bins_ok yb"
    and "\<forall>p. Points p \<in> set (Points xy # rest) \<longrightarrow> length (fst p) = length (snd p)"
    and "Loader_raises \<notin> set rest"
  shows "\<exists>g. interval_frequency_histogram2d (Points xy # rest) xb yb = Inr (Array2 g)
           \<and> nrows g = length xb - 1 \<and> ncols g = length yb - 1"
proof -
  let ?o = "occupancy (fst xy) (snd xy) xb yb"
  have "Points xy \<in> set (Points xy # rest)" by simp
  then have "length (fst xy) = length (snd xy)" using assms(3) by blast
  then have h: "coverage_histogram2d xy xb yb = Inr ?o"
    using coverage_histogram2d_ok [of "fst xy" "snd xy" xb yb] assms(1,2) by simp
  have r: "\<forall>p. Points p \<in> set rest \<longrightarrow> length (fst p) = length (snd p)"
    using assms(3) by simp
  obtain g0 where g0: "np_resize (Array1 []) (nrows ?o, ncols ?o) = Array2 g0"
      "nrows g0 = nrows ?o" "ncols g0 = ncols ?o"
    using np_resize_shape by blast
  from np_add_same_shape [OF g0(2,3)] obtain g1 where
    g1: "np_add (Array2 g0) ?o = Inr (Array2 g1)" "nrows g1 = length xb - 1"
        "ncols g1 = length yb - 1"
    by (auto simp: occupancy_shape)
  have step: "interval_frequency_histogram2d (Points xy # rest) xb yb =
              frequency_loop (0 + 1) rest xb yb (Array2 g1)"
    unfolding interval_frequency_histogram2d_def frequency_loop_add [OF h] set_above_occupancy
    using g0(1) g1(1) by simp
  show ?thesis
    unfolding step by (rule frequency_loop_shaped [OF assms(1,2) r g1(2,3) _ assms(4)]) simp
qed

lemma frequency_loop_all_skipped:
  "frequency_loop i (replicate m No_coordinates) xb yb H = Inr H"
  by (induction m arbitrary: i) (simp_all add: frequency_loop_skip)

text \<open>
  When the first interval is skipped, the sum is still the empty one-dimensional array
  at the first interval that is not, and is not resized there; with two or more y bins
  the addition cannot broadcast and raises.
\<close>

lemma frequency_first_skipped:
  assumes "bins_ok xb" "bins_ok yb" "3 \<le> length yb"
    and "length (fst xy) = length (snd xy)" "0 < m"
  shows "interval_frequency_histogram2d (replicate m No_coordinates @ Points xy # rest) xb yb = Inl ValueError"
proof -
  let ?o = "occupancy (fst xy) (snd xy) xb yb"
  have h: "coverage_histogram2d xy xb yb = Inr ?o"
    using coverage_histogram2d_ok [of "fst xy" "snd xy" xb yb] assms(1,2,4) by simp
  have "bdim 0 (ncols ?o) = None"
    using assms(3) by (simp add: bdim_def occupancy_shape)
  then have a: "np_add (Array1 []) ?o = Inl ValueError"
    by (simp add: np_add_def Let_def split: option.splits)
  have "frequency_loop (0 + length (replicate m (No_coordinates :: interval))) (Points xy # rest) xb yb (Array1 [])
          = Inl ValueError"
    unfolding frequency_loop_add [OF h] set_above_occupancy using assms(5) a by simp
  then show ?thesis
    unfolding interval_frequency_histogram2d_def frequency_loop_append frequency_loop_all_skipped
    by simp
qed

text \<open>
  Claim C2 at a failing input: two intervals, the first skipped, the second with one
  point, on a grid of two by two bins. The sum is resized only in the iteration with
  index \<open>0\<close>, which was skipped, so the addition of the second interval's grid to the
  empty array raises ValueError.
\<close>

theorem frequency_skipped_first_interval:
  "interval_frequency_histogram2d [No_coordinates, Points ([1 / 2], [1 / 2])] [0, 1, 2] [0, 1, 2]
     = Inl ValueError"
  by code_simp

section \<open>Properties of the triangulator\<close>

text \<open>The rows already in the list stay, and one data row is added per simplex.\<close>

lemma triangle_loop_rows:
  assumes "triangle_loop n simplices sX sY acc = Inr out"
  shows "\<exists>new. out = acc @ map Data new \<and> length new = length simplices
           \<and> (\<forall>k<length new. no (new ! k) = n + k
                \<and> (vertice_idx1 (new ! k), vertice_idx2 (new ! k), vertice_idx3 (new ! k))
                     = simplices ! k
                \<and> py_getitem sX (vertice_idx1 (new ! k)) = Inr (sX1_aeqd (new ! k))
                \<and> py_getitem sX (vertice_idx2 (new ! k)) = Inr (sX2_aeqd (new ! k))
                \<and> py_getitem sX (vertice_idx3 (new ! k)) = Inr (sX3_aeqd (new ! k))
                \<and> py_getitem sY (vertice_idx1 (new ! k)) = Inr (sY1_aeqd (new ! k))
                \<and> py_getitem sY (vertice_idx2 (new ! k)) = Inr (sY2_aeqd (new ! k))
                \<and> py_getitem sY (vertice_idx3 (new ! k)) = Inr (sY3_aeqd (new ! k)))"
  using assms
proof (induction simplices arbitrary: n acc)
  case Nil
  then show ?case by simp
next
  case (Cons s rest)
  obtain i1 i2 i3 where s: "s = (i1, i2, i3)" by (cases s) auto
  from Cons.prems obtain x1 x2 x3 y1 y2 y3 where
    g: "py_getitem sX i1 = Inr x1" "py_getitem sX i2 = Inr x2" "py_getitem sX i3 = Inr x3"
       "py_getitem sY i1 = Inr y1" "py_getitem sY i2 = Inr y2" "py_getitem sY i3 = Inr y3"
    unfolding s by (auto split: sum.splits)
  let ?row = "\<lparr>no = n, sX1_aeqd = x1, sX2_aeqd = x2, sX3_aeqd = x3,
               sY1_aeqd = y1, sY2_aeqd = y2, sY3_aeqd = y3,
               vertice_idx1 = i1, vertice_idx2 = i2, vertice_idx3 = i3\<rparr>"
  from Cons.prems g have "triangle_loop (n + 1) rest sX sY (acc @ [Data ?row]) = Inr out"
    unfolding s by simp
  from Cons.IH [OF this] obtain new where
    new: "out = (acc @ [Data ?row]) @ map Data new" "length new = length rest"
    and each: "\<forall>k<length new. no (new ! k) = n + 1 + k
                \<and> (vertice_idx1 (new ! k), vertice_idx2 (new ! k), vertice_idx3 (new ! k))
                     = rest ! k
                \<and> py_getitem sX (vertice_idx1 (new ! k)) = Inr (sX1_aeqd (new ! k))
                \<and> py_getitem sX (vertice_idx2 (new ! k)) = Inr (sX2_aeqd (new ! k))
                \<and> py_getitem sX (vertice_idx3 (new ! k)) = Inr (sX3_aeqd (new ! k))
                \<and> py_getitem sY (vertice_idx1 (new ! k)) = Inr (sY1_aeqd (new ! k))
                \<and> py_getitem sY (vertice_idx2 (new ! k)) = Inr (sY2_aeqd (new ! k))
                \<and> py_getitem sY (vertice_idx3 (new ! k)) = Inr (sY3_aeqd (new ! k))"
    by blast
  let ?new = "?row # new"
  have 1: "out = acc @ map Data ?new" using new(1) by simp
  have 2: "length ?new = length (s # rest)" using new(2) by simp
  have 3: "\<forall>k<length ?new. no (?new ! k) = n + k
                \<and> (vertice_idx1 (?new ! k), vertice_idx2 (?new ! k), vertice_idx3 (?new ! k))
                     = (s # rest) ! k
                \<and> py_getitem sX (vertice_idx1 (?new ! k)) = Inr (sX1_aeqd (?new ! k))
                \<and> py_getitem sX (vertice_idx2 (?new ! k)) = Inr (sX2_aeqd (?new ! k))
                \<and> py_getitem sX (vertice_idx3 (?new ! k)) = Inr (sX3_aeqd (?new ! k))
                \<and> py_getitem sY (vertice_idx1 (?new ! k)) = Inr (sY1_aeqd (?new ! k))
                \<and> py_getitem sY (vertice_idx2 (?new ! k)) = Inr (sY2_aeqd (?new ! k))
                \<and> py_getitem sY (vertice_idx3 (?new ! k)) = Inr (sY3_aeqd (?new ! k))"
  proof (intro allI impI)
    fix k assume k: "k < length ?new"
    show "no (?new ! k) = n + k
                \<and> (vertice_idx1 (?new ! k), vertice_idx2 (?new ! k), vertice_idx3 (?new ! k))
                     = (s # rest) ! k
                \<and> py_getitem sX (vertice_idx1 (?new ! k)) = Inr (sX1_aeqd (?new ! k))
                \<and> py_getitem sX (vertice_idx2 (?new ! k)) = Inr (sX2_aeqd (?new ! k))
                \<and> py_getitem sX (vertice_idx3 (?new ! k)) = Inr (sX3_aeqd (?new ! k))
                \<and> py_getitem sY (vertice_idx1 (?new ! k)) = Inr (sY1_aeqd (?new ! k))
                \<and> py_getitem sY (vertice_idx2 (?new ! k)) = Inr (sY2_aeqd (?new ! k))
                \<and> py_getitem sY (vertice_idx3 (?new ! k)) = Inr (sY3_aeqd (?new ! k))"
    proof (cases k)
      case 0
      then show ?thesis using g s by simp
    next
      case (Suc m)
      then have "m < length new" using k by simp
      then show ?thesis using each Suc by simp
    qed
  qed
  from 1 2 3 show ?case by blast
qed

lemma delaunay_rows:
  assumes "delaunay_triangulation Delaunay sX sY = Inr row_list"
  shows "\<exists>simplices new. Delaunay (zip sX sY) = Inr simplices
           \<and> row_list = Header header # map Data new \<and> length new = length simplices
           \<and> (\<forall>k<length new. no (new ! k) = k
                \<and> (vertice_idx1 (new ! k), vertice_idx2 (new ! k), vertice_idx3 (new ! k))
                     = simplices ! k
                \<and> py_getitem sX (vertice_idx1 (new ! k)) = Inr (sX1_aeqd (new ! k))
                \<and> py_getitem sX (vertice_idx2 (new ! k)) = Inr (sX2_aeqd (new ! k))
                \<and> py_getitem sX (vertice_idx3 (new ! k)) = Inr (sX3_aeqd (new ! k))
                \<and> py_getitem sY (vertice_idx1 (new ! k)) = Inr (sY1_aeqd (new ! k))
                \<and> py_getitem sY (vertice_idx2 (new ! k)) = Inr (sY2_aeqd (new ! k))
                \<and> py_getitem sY (vertice_idx3 (new ! k)) = Inr (sY3_aeqd (new ! k)))"
proof -
  from assms obtain simplices where
    d: "Delaunay (zip sX sY) = Inr simplices"
    and l: "triangle_loop 0 simplices sX sY [Header header] = Inr row_list"
    by (auto simp: delaunay_triangulation_def split: sum.splits)
  from triangle_loop_rows [OF l] d show ?thesis by auto
qed

text \<open>An exception of the triangulation routine leaves the function as it is.\<close>

lemma delaunay_propagates:
  "Delaunay (zip sX sY) = Inl e \<Longrightarrow> delaunay_triangulation Delaunay sX sY = Inl e"
  by (simp add: delaunay_triangulation_def)

text \<open>
  Claim C9. In every table that \<open>delaunay_triangulation\<close> produces, the coordinates
  stored in a data row are exactly the entries of the projected coordinate arrays at
  the vertex indices stored in the same row.
\<close>

theorem triangulation_roundtrip:
  assumes "delaunay_triangulation Delaunay sX sY = Inr row_list"
    and "Data r \<in> set row_list"
  shows "py_getitem sX (vertice_idx1 r) = Inr (sX1_aeqd r)
       \<and> py_getitem sX (vertice_idx2 r) = Inr (sX2_aeqd r)
       \<and> py_getitem sX (vertice_idx3 r) = Inr (sX3_aeqd r)
       \<and> py_getitem sY (vertice_idx1 r) = Inr (sY1_aeqd r)
       \<and> py_getitem sY (vertice_idx2 r) = Inr (sY2_aeqd r)
       \<and> py_getitem sY (vertice_idx3 r) = Inr (sY3_aeqd r)"
proof -
  from delaunay_rows [OF assms(1)] obtain new where
    rows: "row_list = Header header # map Data new"
    and each: "\<forall>k<length new.
                  py_getitem sX (vertice_idx1 (new ! k)) = Inr (sX1_aeqd (new ! k))
                \<and> py_getitem sX (vertice_idx2 (new ! k)) = Inr (sX2_aeqd (new ! k))
                \<and> py_getitem sX (vertice_idx3 (new ! k)) = Inr (sX3_aeqd (new ! k))
                \<and> py_getitem sY (vertice_idx1 (new ! k)) = Inr (sY1_aeqd (new ! k))
                \<and> py_getitem sY (vertice_idx2 (new ! k)) = Inr (sY2_aeqd (new ! k))
                \<and> py_getitem sY (vertice_idx3 (new ! k)) = Inr (sY3_aeqd (new ! k))"
    by blast
  from assms(2) rows have "r \<in> set new" by auto
  then obtain k where "k < length new" "new ! k = r" by (auto simp: in_set_conv_nth)
  with each show ?thesis by blast
qed

theorem triangulation_roundtrip_witness:
  "delaunay_triangulation (scipy_Delaunay (Inr [(0, 1, 2), (1, 3, 2)])) [0, 1, 0, 1] [0, 0, 1, 1] =
     Inr [Header header,
          Data \<lparr>no = 0, sX1_aeqd = 0, sX2_aeqd = 1, sX3_aeqd = 0,
                 sY1_aeqd = 0, sY2_aeqd = 0, sY3_aeqd = 1,
                 vertice_idx1 = 0, vertice_idx2 = 1, vertice_idx3 = 2\<rparr>,
          Data \<lparr>no = 1, sX1_aeqd = 1, sX2_aeqd = 1, sX3_aeqd = 0,
                 sY1_aeqd = 0, sY2_aeqd = 1, sY3_aeqd = 1,
                 vertice_idx1 = 1, vertice_idx2 = 3, vertice_idx3 = 2\<rparr>]
   \<and> py_getitem [0, 1, 0, 1] 3 = Inr (1 :: rat)
   \<and> py_getitem [0, 0, 1, 1] 2 = Inr (1 :: rat)"
proof -
  let ?r = "\<lparr>no = 1, sX1_aeqd = 1, sX2_aeqd = 1, sX3_aeqd = 0,
                 sY1_aeqd = 0, sY2_aeqd = 1, sY3_aeqd = 1,
                 vertice_idx1 = 1, vertice_idx2 = 3, vertice_idx3 = 2\<rparr>"
  have run: "delaunay_triangulation (scipy_Delaunay (Inr [(0, 1, 2), (1, 3, 2)])) [0, 1, 0, 1] [0, 0, 1, 1] =
     Inr [Header header,
          Data \<lparr>no = 0, sX1_aeqd = 0, sX2_aeqd = 1, sX3_aeqd = 0,
                 sY1_aeqd = 0, sY2_aeqd = 0, sY3_aeqd = 1,
                 vertice_idx1 = 0, vertice_idx2 = 1, vertice_idx3 = 2\<rparr>,
          Data ?r]"
    by (simp add: delaunay_triangulation_def scipy_Delaunay_def collinear_def
        py_getitem_def)
  have mem: "Data ?r \<in> set [Header header,
          Data \<lparr>no = 0, sX1_aeqd = 0, sX2_aeqd = 1, sX3_aeqd = 0,
                 sY1_aeqd = 0, sY2_aeqd = 0, sY3_aeqd = 1,
                 vertice_idx1 = 0, vertice_idx2 = 1, vertice_idx3 = 2\<rparr>,
          Data ?r]"
    by simp
  from triangulation_roundtrip [OF run mem] run show ?thesis by simp
qed

text \<open>
  Claim C10. In every table that \<open>delaunay_triangulation\<close> produces, the first row is
  the header and the data row after it at position \<open>n\<close> (counted from 0) carries the
  triangle number \<open>n\<close> and the vertex indices of simplex \<open>n\<close>; there is one data row per
  simplex.
\<close>

theorem triangle_numbers:
  assumes "Delaunay (zip sX sY) = Inr simplices"
    and "delaunay_triangulation Delaunay sX sY = Inr row_list"
  shows "length row_list = length simplices + 1 \<and> row_list ! 0 = Header header
       \<and> (\<forall>n<length simplices. \<exists>r. row_list ! (n + 1) = Data r \<and> no r = n
              \<and> (vertice_idx1 r, vertice_idx2 r, vertice_idx3 r) = simplices ! n)"
proof -
  from delaunay_rows [OF assms(2)] assms(1) obtain new where
    rows: "row_list = Header header # map Data new"
    and len: "length new = length simplices"
    and each: "\<forall>k<length new. no (new ! k) = k
                \<and> (vertice_idx1 (new ! k), vertice_idx2 (new ! k), vertice_idx3 (new ! k))
                     = simplices ! k"
    by auto
  have "\<forall>n<length simplices. \<exists>r. row_list ! (n + 1) = Data r \<and> no r = n
              \<and> (vertice_idx1 r, vertice_idx2 r, vertice_idx3 r) = simplices ! n"
  proof (intro allI impI)
    fix n assume n: "n < length simplices"
    then have "row_list ! (n + 1) = Data (new ! n)" using rows len by simp
    then show "\<exists>r. row_list ! (n + 1) = Data r \<and> no r = n
              \<and> (vertice_idx1 r, vertice_idx2 r, vertice_idx3 r) = simplices ! n"
      using each n len by auto
  qed
  then show ?thesis using rows len by simp
qed

theorem triangle_numbers_witness:
  "delaunay_triangulation (scipy_Delaunay (Inr [(0, 1, 2), (1, 3, 2)])) [0, 1, 0, 1] [0, 0, 1, 1] =
     Inr [Header header,
          Data \<lparr>no = 0, sX1_aeqd = 0, sX2_aeqd = 1, sX3_aeqd = 0,
                 sY1_aeqd = 0, sY2_aeqd = 0, sY3_aeqd = 1,
                 vertice_idx1 = 0, vertice_idx2 = 1, vertice_idx3 = 2\<rparr>,
          Data \<lparr>no = 1, sX1_aeqd = 1, sX2_aeqd = 1, sX3_aeqd = 0,
                 sY1_aeqd = 0, sY2_aeqd = 1, sY3_aeqd = 1,
                 vertice_idx1 = 1, vertice_idx2 = 3, vertice_idx3 = 2\<rparr>]
   \<and> length [(0, 1, 2), (1, 3, 2) :: int \<times> int \<times> int] + 1 = 3"
proof -
  have d: "scipy_Delaunay (Inr [(0, 1, 2), (1, 3, 2)]) (zip [0, 1, 0, 1] [0, 0, 1, 1])
             = Inr [(0, 1, 2), (1, 3, 2)]"
    by (simp add: scipy_Delaunay_def collinear_def)
  have run: "delaunay_triangulation (scipy_Delaunay (Inr [(0, 1, 2), (1, 3, 2)])) [0, 1, 0, 1] [0, 0, 1, 1] =
     Inr [Header header,
          Data \<lparr>no = 0, sX1_aeqd = 0, sX2_aeqd = 1, sX3_aeqd = 0,
                 sY1_aeqd = 0, sY2_aeqd = 0, sY3_aeqd = 1,
                 vertice_idx1 = 0, vertice_idx2 = 1, vertice_idx3 = 2\<rparr>,
          Data \<lparr>no = 1, sX1_aeqd = 1, sX2_aeqd = 1, sX3_aeqd = 0,
                 sY1_aeqd = 0, sY2_aeqd = 1, sY3_aeqd = 1,
                 vertice_idx1 = 1, vertice_idx2 = 3, vertice_idx3 = 2\<rparr>]"
    by (simp add: delaunay_triangulation_def scipy_Delaunay_def collinear_def
        py_getitem_def)
  from triangle_numbers [OF d run] run show ?thesis by simp
qed

text \<open>
  The loop runs to its end when every vertex index is a valid index of both coordinate
  arrays.
\<close>

lemma triangle_loop_returns:
  assumes "\<forall>s \<in> set simplices. \<forall>i \<in> {fst s, fst (snd s), snd (snd s)}.
             - int (length sX) \<le> i \<and> i < int (length sX)
           \<and> - int (length sY) \<le> i \<and> i < int (length sY)"
  shows "\<exists>out. triangle_loop n simplices sX sY acc = Inr out"
  using assms
proof (induction simplices arbitrary: n acc)
  case Nil
  then show ?case by simp
next
  case (Cons s rest)
  obtain i1 i2 i3 where s: "s = (i1, i2, i3)" by (cases s) auto
  have ok: "\<exists>v. py_getitem xs i = Inr v"
    if "- int (length xs) \<le> i" "i < int (length xs)" for xs :: "rat list" and i
    using that by (simp add: py_getitem_def)
  have v: "\<forall>i \<in> {i1, i2, i3}. - int (length sX) \<le> i \<and> i < int (length sX)
           \<and> - int (length sY) \<le> i \<and> i < int (length sY)"
    using Cons.prems s by simp
  obtain x1 x2 x3 y1 y2 y3 where
    g: "py_getitem sX i1 = Inr x1" "py_getitem sX i2 = Inr x2" "py_getitem sX i3 = Inr x3"
       "py_getitem sY i1 = Inr y1" "py_getitem sY i2 = Inr y2" "py_getitem sY i3 = Inr y3"
    using v ok [of sX i1] ok [of sX i2] ok [of sX i3] ok [of sY i1] ok [of sY i2] ok [of sY i3]
    by auto
  have r: "\<forall>s \<in> set rest. \<forall>i \<in> {fst s, fst (snd s), snd (snd s)}.
             - int (length sX) \<le> i \<and> i < int (length sX)
           \<and> - int (length sY) \<le> i \<and> i < int (length sY)"
    using Cons.prems by simp
  show ?case unfolding s using g Cons.IH [OF r] by simp
qed

text \<open>
  Claim C8, as amended. With the failures of \<open>scipy.spatial.Delaunay\<close>, a non-empty
  input of fewer than three points, or of points that all lie on one line, makes
  \<open>delaunay_triangulation\<close> fail with the QhullError of the library, which it neither
  catches nor replaces.
\<close>

theorem delaunay_degenerate:
  assumes "zip sX sY \<noteq> []"
    and "length (zip sX sY) < 3 \<or> collinear (zip sX sY)"
  shows "delaunay_triangulation (scipy_Delaunay outcome) sX sY = Inl QhullError"
proof -
  have "scipy_Delaunay outcome (zip sX sY) = Inl QhullError"
    using assms by (simp add: scipy_Delaunay_def)
  then show ?thesis by (rule delaunay_propagates)
qed

theorem delaunay_degenerate_witness:
  "delaunay_triangulation (scipy_Delaunay (Inr [])) [0, 1, 2] [0, 1, 2] = Inl QhullError"
proof -
  have h1: "zip [0, 1, 2 :: rat] [0, 1, 2 :: rat] \<noteq> []" by simp
  have h2: "length (zip [0, 1, 2 :: rat] [0, 1, 2 :: rat]) < 3
            \<or> collinear (zip [0, 1, 2] [0, 1, 2])"
    by (simp add: collinear_def)
  show ?thesis by (rule delaunay_degenerate [OF h1 h2])
qed

text \<open>
  Claim C8 as stated fails: for three points on one line the error is not
  \<open>InsufficientPointsError\<close>.
\<close>

theorem delaunay_collinear_counterexample:
  "delaunay_triangulation (scipy_Delaunay (Inr [])) [0, 1, 2] [0, 1, 2]
     \<noteq> Inl InsufficientPointsError"
  by (simp add: delaunay_triangulation_def scipy_Delaunay_def collinear_def)

end
